theory Spec2Isabelle
  imports Main
begin

section \<open>Failures of the C++ code as values\<close>

text \<open>
  The sources are C++: an index past the end of a \<open>std::vector\<close>, a dereferenced null
  pointer or end iterator, a failed \<open>assert\<close> and a signed overflow do not return.
  Each of them is a branch of the model that yields an error.
\<close>

datatype error = OutOfRange | AssertionFailed | NullDeref | DivByZero | IntOverflow

definition ebind :: "error + 'a \<Rightarrow> ('a \<Rightarrow> error + 'b) \<Rightarrow> error + 'b" where
  "ebind m f = (case m of Inl e \<Rightarrow> Inl e | Inr x \<Rightarrow> f x)"

definition vget :: "'a list \<Rightarrow> nat \<Rightarrow> error + 'a" where
  "vget xs i = (if i < length xs then Inr (xs ! i) else Inl OutOfRange)"

definition vset :: "'a list \<Rightarrow> nat \<Rightarrow> 'a \<Rightarrow> error + 'a list" where
  "vset xs i v = (if i < length xs then Inr (xs[i := v]) else Inl OutOfRange)"

section \<open>LRU replacer (src/buffer/lru\_replacer.cpp)\<close>

text \<open>
  The member \<open>vec_\<close> is a \<open>std::list<T>\<close>; its front is the head of the HOL list.
  \<open>erase_first\<close> is the scan-and-erase loop shared by \<open>Insert\<close> and \<open>Erase\<close>: it
  erases the first element equal to the value and stops.
\<close>

fun erase_first :: "'a \<Rightarrow> 'a list \<Rightarrow> 'a list" where
  "erase_first v [] = []"
| "erase_first v (x # xs) = (if x = v then xs else x # erase_first v xs)"

definition LRU_Insert :: "'a \<Rightarrow> 'a list \<Rightarrow> 'a list" where
  "LRU_Insert v vec = v # erase_first v vec"

text \<open>
  \<open>Victim\<close>: on an empty list return false. Otherwise the loop walks the whole list and
  assigns every element to \<open>value\<close> in turn, then \<open>pop_back\<close> drops the last node.
  The result is the value left in the out-parameter (\<open>None\<close> for a false return) and
  the new list.
\<close>

definition victim_scan :: "'a list \<Rightarrow> 'a option" where
  "victim_scan vec = foldl (\<lambda>value x. Some x) None vec"

definition Victim :: "'a list \<Rightarrow> 'a option \<times> 'a list" where
  "Victim vec = (if vec = [] then (None, vec) else (victim_scan vec, butlast vec))"

definition Erase :: "'a \<Rightarrow> 'a list \<Rightarrow> bool \<times> 'a list" where
  "Erase v vec = (v \<in> set vec, erase_first v vec)"

definition LRU_Size :: "'a list \<Rightarrow> nat" where
  "LRU_Size vec = length vec"

text \<open>The replacer after a sequence of \<open>Insert\<close> calls, the first call first.\<close>

definition insert_all :: "'a list \<Rightarrow> 'a list" where
  "insert_all ins = foldl (\<lambda>vec v. LRU_Insert v vec) [] ins"

text \<open>
  \<open>last_insert ins x\<close> is the position in \<open>ins\<close> of the most recent \<open>Insert\<close> of \<open>x\<close>
  (of no meaning when \<open>x\<close> was never inserted).
\<close>

fun last_insert :: "'a list \<Rightarrow> 'a \<Rightarrow> nat" where
  "last_insert [] x = 0"
| "last_insert (a # as) x = (if x \<in> set as then Suc (last_insert as x) else 0)"

fun older_than_all :: "'a list \<Rightarrow> 'a \<Rightarrow> 'a list \<Rightarrow> bool" where
  "older_than_all ins v [] = True"
| "older_than_all ins v (x # xs) =
     ((x = v \<or> last_insert ins v < last_insert ins x) \<and> older_than_all ins v xs)"

section \<open>Lock manager (src/concurrency/lock\_manager.cpp)\<close>

datatype TransactionState = GROWING | SHRINKING | COMMITTED | ABORTED

datatype LockMode = SHARED | EXCLUSIVE

record Request =
  txn_id :: int
  lock_mode :: LockMode
  granted :: bool

text \<open>
  Modelled from the spec: the header lock\_manager.h, which declares the value type of
  \<open>lock_table_\<close>, is not among the sources. The code uses its members \<open>oldest\<close>,
  \<open>exclusive_cnt\<close> and \<open>list\<close> (here \<open>req_list\<close>); the spec describes them as the
  transaction id of the oldest waiter or holder, a count of granted exclusive requests and
  a FIFO list of requests. \<open>operator[]\<close> on a missing key inserts a value-initialised
  entry, \<open>default_entry\<close>.
\<close>

record LockEntry =
  oldest :: int
  exclusive_cnt :: int
  req_list :: "Request list"

definition default_entry :: LockEntry where
  "default_entry = \<lparr>oldest = 0, exclusive_cnt = 0, req_list = []\<rparr>"

text \<open>
  Modelled from the spec: transaction.h is not among the sources either. The lock manager
  reads and writes a transaction's id, its state and its two sets of held record ids.
\<close>

record 'r Transaction =
  transaction_id :: int
  state :: TransactionState
  shared_lock_set :: "'r set"
  exclusive_lock_set :: "'r set"

record 'r LockManager =
  strict_2PL :: bool
  lock_table :: "'r \<Rightarrow> LockEntry option"

text \<open>
  Every call holds \<open>mutex_\<close> from entry to return except inside \<open>cv_.wait\<close>, so a call
  is one atomic step up to the point where its wait predicate is false. There the thread
  is suspended (\<open>Waiting\<close>) with its request left in the queue; a later wake-up
  re-evaluates the predicate and, when it holds, runs the rest of the call.
\<close>

datatype call_result = Returned bool | Waiting

definition at_rid :: "'r LockManager \<Rightarrow> 'r \<Rightarrow> LockEntry" where
  "at_rid lm rid = (case lock_table lm rid of None \<Rightarrow> default_entry | Some e \<Rightarrow> e)"

definition put_rid :: "'r LockManager \<Rightarrow> 'r \<Rightarrow> LockEntry \<Rightarrow> 'r LockManager" where
  "put_rid lm rid e = lm\<lparr>lock_table := (lock_table lm)(rid := Some e)\<rparr>"

text \<open>
  The wait predicate of \<open>LockShared\<close>, with the position of \<open>cur\<close>: a request of
  another transaction ahead of the caller's that is not shared, or is granted, makes the
  predicate false.
\<close>

fun shared_scan :: "int \<Rightarrow> nat \<Rightarrow> Request list \<Rightarrow> bool \<times> nat option" where
  "shared_scan t i [] = (True, None)"
| "shared_scan t i (r # rs) =
     (if txn_id r \<noteq> t
      then (if lock_mode r \<noteq> SHARED \<or> granted r then (False, None)
            else shared_scan t (Suc i) rs)
      else (True, Some i))"

fun exclusive_scan :: "int \<Rightarrow> nat \<Rightarrow> Request list \<Rightarrow> bool \<times> nat option" where
  "exclusive_scan t i [] = (True, None)"
| "exclusive_scan t i (r # rs) =
     (if txn_id r \<noteq> t
      then (if granted r then (False, None) else exclusive_scan t (Suc i) rs)
      else (True, Some i))"

fun upgrade_pred :: "int \<Rightarrow> Request list \<Rightarrow> bool" where
  "upgrade_pred t [] = True"
| "upgrade_pred t (r # rs) = (txn_id r = t \<and> \<not> list_ex granted rs)"

definition LockShared_wait ::
  "'r Transaction \<Rightarrow> 'r \<Rightarrow> 'r LockManager \<Rightarrow> error + (call_result \<times> 'r Transaction \<times> 'r LockManager)" where
  "LockShared_wait txn rid lm =
     (let e = at_rid lm rid; sc = shared_scan (transaction_id txn) 0 (req_list e) in
      if \<not> fst sc then Inr (Waiting, txn, lm)
      else (case snd sc of
          None \<Rightarrow> Inl NullDeref
        | Some i \<Rightarrow>
            Inr (Returned True,
                 txn\<lparr>shared_lock_set := insert rid (shared_lock_set txn)\<rparr>,
                 put_rid lm rid
                   (e\<lparr>req_list := (req_list e)[i := (req_list e ! i)\<lparr>granted := True\<rparr>]\<rparr>))))"

definition LockShared ::
  "'r Transaction \<Rightarrow> 'r \<Rightarrow> 'r LockManager \<Rightarrow> error + (call_result \<times> 'r Transaction \<times> 'r LockManager)" where
  "LockShared txn rid lm =
     (if state txn = ABORTED then Inr (Returned False, txn, lm)
      else if state txn \<noteq> GROWING then Inl AssertionFailed
      else if rid \<in> shared_lock_set txn then Inl AssertionFailed
      else
        (let request = \<lparr>txn_id = transaction_id txn, lock_mode = SHARED, granted = False\<rparr> in
         case lock_table lm rid of
           None \<Rightarrow>
             LockShared_wait txn rid
               (put_rid lm rid (default_entry\<lparr>oldest := transaction_id txn, req_list := [request]\<rparr>))
         | Some e \<Rightarrow>
             if exclusive_cnt e \<noteq> 0 \<and> transaction_id txn > oldest e
             then Inr (Returned False, txn\<lparr>state := ABORTED\<rparr>, lm)
             else LockShared_wait txn rid
               (put_rid lm rid
                  (e\<lparr>oldest := transaction_id txn, req_list := req_list e @ [request]\<rparr>))))"

definition LockExclusive_wait ::
  "'r Transaction \<Rightarrow> 'r \<Rightarrow> 'r LockManager \<Rightarrow> error + (call_result \<times> 'r Transaction \<times> 'r LockManager)" where
  "LockExclusive_wait txn rid lm =
     (let e = at_rid lm rid; sc = exclusive_scan (transaction_id txn) 0 (req_list e) in
      if \<not> fst sc then Inr (Waiting, txn, lm)
      else (case snd sc of
          None \<Rightarrow> Inl NullDeref
        | Some i \<Rightarrow>
            Inr (Returned True,
                 txn\<lparr>exclusive_lock_set := insert rid (exclusive_lock_set txn)\<rparr>,
                 put_rid lm rid
                   (e\<lparr>req_list := (req_list e)[i := (req_list e ! i)\<lparr>granted := True\<rparr>],
                      exclusive_cnt := exclusive_cnt e + 1\<rparr>))))"

definition LockExclusive ::
  "'r Transaction \<Rightarrow> 'r \<Rightarrow> 'r LockManager \<Rightarrow> error + (call_result \<times> 'r Transaction \<times> 'r LockManager)" where
  "LockExclusive txn rid lm =
     (if state txn = ABORTED then Inr (Returned False, txn, lm)
      else if state txn \<noteq> GROWING then Inl AssertionFailed
      else if rid \<in> exclusive_lock_set txn then Inl AssertionFailed
      else
        (let request = \<lparr>txn_id = transaction_id txn, lock_mode = EXCLUSIVE, granted = False\<rparr> in
         case lock_table lm rid of
           None \<Rightarrow>
             LockExclusive_wait txn rid
               (put_rid lm rid (default_entry\<lparr>oldest := transaction_id txn, req_list := [request]\<rparr>))
         | Some e \<Rightarrow>
             if transaction_id txn > oldest e
             then Inr (Returned False, txn\<lparr>state := ABORTED\<rparr>, lm)
             else LockExclusive_wait txn rid
               (put_rid lm rid
                  (e\<lparr>oldest := transaction_id txn, req_list := req_list e @ [request]\<rparr>))))"

text \<open>
  \<open>LockUpgrade\<close>: the predicate reads \<open>lock_table_[rid]\<close>, which creates the entry when
  it is missing; after the wait the head of the list is dereferenced.
\<close>

definition LockUpgrade_wait ::
  "'r Transaction \<Rightarrow> 'r \<Rightarrow> 'r LockManager \<Rightarrow> error + (call_result \<times> 'r Transaction \<times> 'r LockManager)" where
  "LockUpgrade_wait txn rid lm =
     (let e = at_rid lm rid in
      if \<not> upgrade_pred (transaction_id txn) (req_list e) then Inr (Waiting, txn, put_rid lm rid e)
      else (case req_list e of
          [] \<Rightarrow> Inl NullDeref
        | cur # rest \<Rightarrow>
            Inr (Returned True,
                 txn\<lparr>shared_lock_set := shared_lock_set txn - {rid},
                     exclusive_lock_set := insert rid (exclusive_lock_set txn)\<rparr>,
                 put_rid lm rid
                   (e\<lparr>req_list := cur\<lparr>lock_mode := EXCLUSIVE\<rparr> # rest,
                      exclusive_cnt := exclusive_cnt e + 1\<rparr>))))"

definition LockUpgrade ::
  "'r Transaction \<Rightarrow> 'r \<Rightarrow> 'r LockManager \<Rightarrow> error + (call_result \<times> 'r Transaction \<times> 'r LockManager)" where
  "LockUpgrade txn rid lm =
     (if state txn = ABORTED then Inr (Returned False, txn, lm)
      else if state txn \<noteq> GROWING then Inl AssertionFailed
      else if rid \<notin> shared_lock_set txn then Inl AssertionFailed
      else LockUpgrade_wait txn rid lm)"

text \<open>
  \<open>Unlock\<close>. The first loop erases the first request of the transaction and adjusts the
  held sets and the exclusive count; the second loop (`update oldest') lowers \<open>oldest\<close>
  to any smaller id left in the list.
\<close>

fun unlock_erase ::
  "'r \<Rightarrow> 'r Transaction \<Rightarrow> int \<Rightarrow> Request list \<Rightarrow> 'r Transaction \<times> int \<times> Request list" where
  "unlock_erase rid txn cnt [] = (txn, cnt, [])"
| "unlock_erase rid txn cnt (r # rs) =
     (if txn_id r = transaction_id txn
      then (if lock_mode r = SHARED
            then (txn\<lparr>shared_lock_set := shared_lock_set txn - {rid}\<rparr>, cnt, rs)
            else (txn\<lparr>exclusive_lock_set := exclusive_lock_set txn - {rid}\<rparr>, cnt - 1, rs))
      else (case unlock_erase rid txn cnt rs of (txn', cnt', rs') \<Rightarrow> (txn', cnt', r # rs')))"

definition update_oldest :: "int \<Rightarrow> Request list \<Rightarrow> int" where
  "update_oldest old rs = foldl (\<lambda>old r. if txn_id r < old then txn_id r else old) old rs"

definition Unlock ::
  "'r Transaction \<Rightarrow> 'r \<Rightarrow> 'r LockManager \<Rightarrow> error + (call_result \<times> 'r Transaction \<times> 'r LockManager)" where
  "Unlock txn rid lm =
     (if \<not> (rid \<in> shared_lock_set txn \<or> rid \<in> exclusive_lock_set txn) then Inl AssertionFailed
      else if strict_2PL lm \<and> (state txn \<noteq> ABORTED \<or> state txn \<noteq> COMMITTED)
      then Inr (Returned False, txn\<lparr>state := ABORTED\<rparr>, lm)
      else
        (let txn1 = (if state txn = GROWING then txn\<lparr>state := SHRINKING\<rparr> else txn);
             e = at_rid lm rid
         in case unlock_erase rid txn1 (exclusive_cnt e) (req_list e) of
           (txn2, cnt, rs) \<Rightarrow>
             Inr (Returned True, txn2,
                  put_rid lm rid
                    (e\<lparr>exclusive_cnt := cnt, req_list := rs,
                       oldest := update_oldest (oldest e) rs\<rparr>))))"

text \<open>
  A schedule is a list of atomic steps: the four calls, each by the transaction with the
  given id, and the wake-up of a thread suspended in one of the three lock calls. The
  transactions are kept in a store indexed by id; \<open>SetState\<close> is the transaction manager
  committing or aborting a transaction.
\<close>

datatype 'r lock_event =
    CallLockShared int 'r
  | CallLockExclusive int 'r
  | CallLockUpgrade int 'r
  | CallUnlock int 'r
  | WakeShared int 'r
  | WakeExclusive int 'r
  | WakeUpgrade int 'r
  | SetState int TransactionState

record 'r lock_world =
  txns :: "int \<Rightarrow> 'r Transaction"
  manager :: "'r LockManager"
  results :: "call_result list"

definition new_txn :: "int \<Rightarrow> 'r Transaction" where
  "new_txn i = \<lparr>transaction_id = i, state = GROWING, shared_lock_set = {}, exclusive_lock_set = {}\<rparr>"

definition lock_world_init :: "bool \<Rightarrow> 'r lock_world" where
  "lock_world_init strict =
     \<lparr>txns = new_txn, manager = \<lparr>strict_2PL = strict, lock_table = (\<lambda>rid. None)\<rparr>, results = []\<rparr>"

definition commit_step ::
  "'r lock_world \<Rightarrow> int \<Rightarrow> error + (call_result \<times> 'r Transaction \<times> 'r LockManager) \<Rightarrow> error + 'r lock_world" where
  "commit_step w i r =
     (case r of
        Inl e \<Rightarrow> Inl e
      | Inr (res, txn, lm) \<Rightarrow>
          Inr (w\<lparr>txns := (txns w)(i := txn), manager := lm, results := results w @ [res]\<rparr>))"

fun lock_step :: "'r lock_world \<Rightarrow> 'r lock_event \<Rightarrow> error + 'r lock_world" where
  "lock_step w (CallLockShared i rid) = commit_step w i (LockShared (txns w i) rid (manager w))"
| "lock_step w (CallLockExclusive i rid) = commit_step w i (LockExclusive (txns w i) rid (manager w))"
| "lock_step w (CallLockUpgrade i rid) = commit_step w i (LockUpgrade (txns w i) rid (manager w))"
| "lock_step w (CallUnlock i rid) = commit_step w i (Unlock (txns w i) rid (manager w))"
| "lock_step w (WakeShared i rid) = commit_step w i (LockShared_wait (txns w i) rid (manager w))"
| "lock_step w (WakeExclusive i rid) = commit_step w i (LockExclusive_wait (txns w i) rid (manager w))"
| "lock_step w (WakeUpgrade i rid) = commit_step w i (LockUpgrade_wait (txns w i) rid (manager w))"
| "lock_step w (SetState i st) = Inr (w\<lparr>txns := (txns w)(i := (txns w i)\<lparr>state := st\<rparr>)\<rparr>)"

fun lock_run :: "'r lock_world \<Rightarrow> 'r lock_event list \<Rightarrow> error + 'r lock_world" where
  "lock_run w [] = Inr w"
| "lock_run w (c # cs) = (case lock_step w c of Inl e \<Rightarrow> Inl e | Inr w' \<Rightarrow> lock_run w' cs)"

text \<open>The smallest transaction id among the requests of an entry, if it has any.\<close>

definition min_txn_id :: "LockEntry \<Rightarrow> int option" where
  "min_txn_id e = (case req_list e of [] \<Rightarrow> None | r # rs \<Rightarrow> Some (foldl min (txn_id r) (map txn_id rs)))"

text \<open>
  The state reached in strict mode when transaction 1 has taken a shared lock on record 7
  and has then been committed by the transaction manager.
\<close>

definition committed_holder :: "nat Transaction" where
  "committed_holder =
     \<lparr>transaction_id = 1, state = COMMITTED, shared_lock_set = {7}, exclusive_lock_set = {}\<rparr>"

definition strict_manager :: "nat LockManager" where
  "strict_manager =
     \<lparr>strict_2PL = True,
      lock_table = (\<lambda>rid. None)(7 := Some \<lparr>oldest = 1, exclusive_cnt = 0,
        req_list = [\<lparr>txn_id = 1, lock_mode = SHARED, granted = True\<rparr>]\<rparr>)\<rparr>"

section \<open>Extendible hash (src/hash/extendible\_hash.cpp)\<close>

text \<open>
  A bucket is a \<open>std::map<K, V>\<close>: its keys are unique and it is iterated in key
  order. It is modelled as an association list kept sorted by key. \<open>std::map::insert\<close>
  leaves the map as it is when the key is already bound; \<open>erase(key)\<close> returns the
  number of elements removed.
\<close>

definition map_insert :: "'k::linorder \<Rightarrow> 'v \<Rightarrow> ('k \<times> 'v) list \<Rightarrow> ('k \<times> 'v) list" where
  "map_insert k v b = (case map_of b k of None \<Rightarrow> insort_key fst (k, v) b | Some old \<Rightarrow> b)"

definition map_erase :: "'k \<Rightarrow> ('k \<times> 'v) list \<Rightarrow> ('k \<times> 'v) list" where
  "map_erase k b = filter (\<lambda>p. fst p \<noteq> k) b"

text \<open>
  The members of the class. \<open>Dir\<close> and \<open>J\<close> are \<open>std::vector<int>\<close> and \<open>dirSize\<close>
  and \<open>I\<close> are \<open>int\<close>; none of them ever holds a negative number, so they are naturals
  here, and an increment or doubling that would pass \<open>INT_MAX\<close> is an error.
\<close>

record ('k, 'v) ExtendibleHash =
  Dir :: "nat list"
  dirSize :: nat
  I :: nat
  bucketSize :: nat
  J :: "nat list"
  buckets :: "('k \<times> 'v) list list"

definition INT_MAX :: nat where
  "INT_MAX = 2147483647"

definition int_incr :: "nat \<Rightarrow> error + nat" where
  "int_incr n = (if n < INT_MAX then Inr (Suc n) else Inl IntOverflow)"

definition int_double :: "nat \<Rightarrow> error + nat" where
  "int_double n = (if 2 * n \<le> INT_MAX then Inr (2 * n) else Inl IntOverflow)"

definition ExtendibleHash_init :: "nat \<Rightarrow> ('k, 'v) ExtendibleHash" where
  "ExtendibleHash_init sz =
     \<lparr>Dir = [0, 1], dirSize = 2, I = 1, bucketSize = sz, J = [1, 1], buckets = [[], []]\<rparr>"

text \<open>
  \<open>h\<close> stands for \<open>std::hash<K>\<close>, whose values are implementation-defined; every
  operation takes it as a parameter.
\<close>

definition HashKey :: "('k \<Rightarrow> nat) \<Rightarrow> ('k, 'v) ExtendibleHash \<Rightarrow> 'k \<Rightarrow> error + nat" where
  "HashKey h s key = (if dirSize s = 0 then Inl DivByZero else Inr (h key mod dirSize s))"

definition GetGlobalDepth :: "('k, 'v) ExtendibleHash \<Rightarrow> nat" where
  "GetGlobalDepth s = I s"

definition GetLocalDepth :: "('k, 'v) ExtendibleHash \<Rightarrow> nat \<Rightarrow> error + nat" where
  "GetLocalDepth s bucket_id = vget (J s) bucket_id"

definition GetNumBuckets :: "('k, 'v) ExtendibleHash \<Rightarrow> nat" where
  "GetNumBuckets s = length (buckets s)"

text \<open>The bucket a key is looked up in: its directory slot, bucket index and contents.\<close>

definition locate ::
  "('k \<Rightarrow> nat) \<Rightarrow> ('k, 'v) ExtendibleHash \<Rightarrow> 'k \<Rightarrow> error + (nat \<times> nat \<times> ('k \<times> 'v) list)" where
  "locate h s key =
     (case HashKey h s key of
        Inl e \<Rightarrow> Inl e
      | Inr dirIndex \<Rightarrow>
          (case vget (Dir s) dirIndex of
             Inl e \<Rightarrow> Inl e
           | Inr bucketIndex \<Rightarrow>
               (case vget (buckets s) bucketIndex of
                  Inl e \<Rightarrow> Inl e
                | Inr b \<Rightarrow> Inr (dirIndex, bucketIndex, b))))"

definition Find :: "('k \<Rightarrow> nat) \<Rightarrow> 'k \<Rightarrow> ('k, 'v) ExtendibleHash \<Rightarrow> error + 'v option" where
  "Find h key s =
     (case locate h s key of
        Inl e \<Rightarrow> Inl e
      | Inr (dirIndex, bucketIndex, b) \<Rightarrow> Inr (map_of b key))"

definition Remove ::
  "('k \<Rightarrow> nat) \<Rightarrow> 'k \<Rightarrow> ('k, 'v) ExtendibleHash \<Rightarrow> error + (bool \<times> ('k, 'v) ExtendibleHash)" where
  "Remove h key s =
     (case locate h s key of
        Inl e \<Rightarrow> Inl e
      | Inr (dirIndex, bucketIndex, b) \<Rightarrow>
          Inr (map_of b key \<noteq> None, s\<lparr>buckets := (buckets s)[bucketIndex := map_erase key b]\<rparr>))"

text \<open>
  The loop of \<open>Split\<close> that doubles the directory: \<open>Dir.push_back(Dir[idx])\<close> for
  \<open>idx\<close> from 0 up to half the new \<open>dirSize\<close>.
\<close>

function push_copies :: "nat \<Rightarrow> nat \<Rightarrow> nat list \<Rightarrow> error + nat list" where
  "push_copies idx n D =
     (if idx < n
      then (case vget D idx of Inl e \<Rightarrow> Inl e | Inr d \<Rightarrow> push_copies (Suc idx) n (D @ [d]))
      else Inr D)"
  by pat_completeness auto
termination
  by (relation "measure (\<lambda>(idx, n, D). n - idx)") auto

text \<open>
  The last loop of \<open>Split\<close>: every entry of the copy of the split bucket is inserted
  into the bucket its key is now directed to.
\<close>

fun rehash ::
  "('k::linorder \<Rightarrow> nat) \<Rightarrow> ('k \<times> 'v) list \<Rightarrow> ('k, 'v) ExtendibleHash \<Rightarrow> error + ('k, 'v) ExtendibleHash" where
  "rehash h [] s = Inr s"
| "rehash h ((key, val) # rest) s =
     (case locate h s key of
        Inl e \<Rightarrow> Inl e
      | Inr (dirIndex, bucketIndex, b) \<Rightarrow>
          rehash h rest (s\<lparr>buckets := (buckets s)[bucketIndex := map_insert key val b]\<rparr>))"

text \<open>
  The two branches of \<open>Split\<close> up to the rehash, statement by statement. In both the
  new bucket is pushed onto \<open>buckets\<close> and \<open>J[buckets.size() - 1]\<close> is then assigned;
  \<open>J\<close> itself is never extended.
\<close>

definition split_grow ::
  "nat \<Rightarrow> nat \<Rightarrow> ('k, 'v) ExtendibleHash \<Rightarrow> error + ('k, 'v) ExtendibleHash" where
  "split_grow bucketIndex jb s =
     (let s1 = s\<lparr>buckets := buckets s @ [[]]\<rparr> in
      ebind (int_incr (I s1)) (\<lambda>i'.
      ebind (int_double (dirSize s1)) (\<lambda>ds'.
      ebind (int_incr jb) (\<lambda>jb'.
      ebind (vset (J s1) bucketIndex jb') (\<lambda>J1.
      ebind (vset J1 (length (buckets s1) - 1) jb') (\<lambda>J2.
      ebind (push_copies 0 (ds' div 2) (Dir s1)) (\<lambda>D1.
      ebind (vset D1 (bucketIndex + ds' div 2) (length (buckets s1) - 1)) (\<lambda>D2.
      Inr (s1\<lparr>I := i', dirSize := ds', J := J2, Dir := D2\<rparr>)))))))))"

definition split_local ::
  "nat \<Rightarrow> nat \<Rightarrow> ('k, 'v) ExtendibleHash \<Rightarrow> error + ('k, 'v) ExtendibleHash" where
  "split_local bucketIndex jb s =
     ebind (int_incr jb) (\<lambda>jb'.
     ebind (vset (J s) bucketIndex jb') (\<lambda>J1.
     (let s1 = s\<lparr>buckets := buckets s @ [[]]\<rparr> in
      ebind (vset J1 (length (buckets s1) - 1) jb') (\<lambda>J2.
      ebind (vset (Dir s1) (bucketIndex + dirSize s1 div 2) (length (buckets s1) - 1)) (\<lambda>D2.
      Inr (s1\<lparr>J := J2, Dir := D2\<rparr>))))))"

definition Split ::
  "('k::linorder \<Rightarrow> nat) \<Rightarrow> nat \<Rightarrow> ('k, 'v) ExtendibleHash \<Rightarrow> error + ('k, 'v) ExtendibleHash" where
  "Split h dirIndex s =
     ebind (vget (Dir s) dirIndex) (\<lambda>bucketIndex.
     ebind (vget (J s) bucketIndex) (\<lambda>jb.
     ebind (if jb = I s then split_grow bucketIndex jb s else split_local bucketIndex jb s) (\<lambda>s1.
     ebind (vget (buckets s1) bucketIndex) (\<lambda>m.
     rehash h m (s1\<lparr>buckets := (buckets s1)[bucketIndex := []]\<rparr>)))))"

text \<open>
  \<open>InsertAux\<close>: the \<open>while\<close> loop splits as long as the bucket the key is directed to
  is full. Nothing in the code bounds the number of rounds, so the loop is a partial
  function and \<open>None\<close> stands for a loop that never ends.
\<close>

partial_function (option) InsertAux_loop ::
  "('k::linorder \<Rightarrow> nat) \<Rightarrow> 'k \<Rightarrow> ('k, 'v) ExtendibleHash \<Rightarrow> (error + nat \<times> ('k, 'v) ExtendibleHash) option" where
  "InsertAux_loop h key s =
     (case locate h s key of
        Inl e \<Rightarrow> Some (Inl e)
      | Inr (dirIndex, bucketIndex, b) \<Rightarrow>
          if length b = bucketSize s
          then (case Split h dirIndex s of
                  Inl e \<Rightarrow> Some (Inl e)
                | Inr s' \<Rightarrow> InsertAux_loop h key s')
          else Some (Inr (bucketIndex, s)))"

definition InsertAux ::
  "('k::linorder \<Rightarrow> nat) \<Rightarrow> 'k \<Rightarrow> 'v \<Rightarrow> ('k, 'v) ExtendibleHash \<Rightarrow> (error + ('k, 'v) ExtendibleHash) option" where
  "InsertAux h key val s =
     (case InsertAux_loop h key s of
        None \<Rightarrow> None
      | Some (Inl e) \<Rightarrow> Some (Inl e)
      | Some (Inr (bucketIndex, s')) \<Rightarrow>
          Some (ebind (vget (buckets s') bucketIndex) (\<lambda>b.
            Inr (s'\<lparr>buckets := (buckets s')[bucketIndex := map_insert key val b]\<rparr>))))"

definition Insert ::
  "('k::linorder \<Rightarrow> nat) \<Rightarrow> 'k \<Rightarrow> 'v \<Rightarrow> ('k, 'v) ExtendibleHash \<Rightarrow> (error + ('k, 'v) ExtendibleHash) option" where
  "Insert h key val s = InsertAux h key val s"

text \<open>A sequence of calls on the table; it stops at the first call that does not return.\<close>

datatype ('k, 'v) hash_call = CallInsert 'k 'v | CallRemove 'k

fun hash_run ::
  "('k::linorder \<Rightarrow> nat) \<Rightarrow> ('k, 'v) ExtendibleHash \<Rightarrow> ('k, 'v) hash_call list \<Rightarrow> (error + ('k, 'v) ExtendibleHash) option" where
  "hash_run h s [] = Some (Inr s)"
| "hash_run h s (CallInsert k v # cs) =
     (case Insert h k v s of
        None \<Rightarrow> None
      | Some (Inl e) \<Rightarrow> Some (Inl e)
      | Some (Inr s') \<Rightarrow> hash_run h s' cs)"
| "hash_run h s (CallRemove k # cs) =
     (case Remove h k s of
        Inl e \<Rightarrow> Some (Inl e)
      | Inr (r, s') \<Rightarrow> hash_run h s' cs)"

text \<open>
  What every state reached from the constructor by returning calls looks like: the
  directory, the depths and the number of buckets are still the initial ones, and every
  key sits in the bucket its hash directs to. \<open>lookup\<close> is the binding of a key in
  such a state.
\<close>

definition hash_inv :: "('k \<Rightarrow> nat) \<Rightarrow> ('k, 'v) ExtendibleHash \<Rightarrow> bool" where
  "hash_inv h s \<longleftrightarrow>
     Dir s = [0, 1] \<and> dirSize s = 2 \<and> I s = 1 \<and> J s = [1, 1] \<and> length (buckets s) = 2 \<and>
     (\<forall>b < 2. \<forall>k. map_of (buckets s ! b) k \<noteq> None \<longrightarrow> h k mod 2 = b)"

definition lookup :: "('k \<Rightarrow> nat) \<Rightarrow> ('k, 'v) ExtendibleHash \<Rightarrow> 'k \<Rightarrow> 'v option" where
  "lookup h s k = map_of (buckets s ! (h k mod 2)) k"

text \<open>The table of bucket size 2 after \<open>Insert(0, 10)\<close>, with the identity as hash.\<close>

definition one_binding :: "(nat, nat) ExtendibleHash" where
  "one_binding =
     \<lparr>Dir = [0, 1], dirSize = 2, I = 1, bucketSize = 2, J = [1, 1], buckets = [[(0, 10)], []]\<rparr>"

text \<open>The table of bucket size 1 after \<open>Insert(0, 10)\<close>: the bucket of even keys is full.\<close>

definition full_bucket :: "(nat, nat) ExtendibleHash" where
  "full_bucket =
     \<lparr>Dir = [0, 1], dirSize = 2, I = 1, bucketSize = 1, J = [1, 1], buckets = [[(0, 10)], []]\<rparr>"

section \<open>Buffer pool manager (src/buffer/buffer\_pool\_manager.cpp)\<close>

text \<open>
  Modelled from the spec: page.h, config.h and the disk manager are not among the sources.
  A frame carries the id of its page (the sentinel \<open>INVALID_PAGE_ID = -1\<close> for none), a
  pin count and a dirty flag, and starts as (sentinel, 0, false). The bytes of a page play
  no part in what the manager decides and are left out; the calls to the disk manager are
  kept as a trace. The id \<open>AllocatePage\<close> returns is an input of \<open>NewPage\<close>, and
  \<open>BUCKET_SIZE\<close> is an argument of the constructor.

  A \<open>Page *\<close> always points into the array \<open>pages_\<close>; here it is the index of the
  frame. The page table is the extendible hash above with page ids as keys.
\<close>

definition INVALID_PAGE_ID :: int where
  "INVALID_PAGE_ID = - 1"

record Page =
  page_id :: int
  pin_count :: int
  is_dirty :: bool

datatype disk_call = WritePage int | ReadPage int | AllocatePage int | DeallocatePage int

record BufferPoolManager =
  pages :: "Page list"
  page_table :: "(int, nat) ExtendibleHash"
  replacer :: "nat list"
  free_list :: "nat list"
  disk_log :: "disk_call list"

definition BufferPoolManager_init :: "nat \<Rightarrow> nat \<Rightarrow> BufferPoolManager" where
  "BufferPoolManager_init pool_size bucket_size =
     \<lparr>pages = replicate pool_size \<lparr>page_id = INVALID_PAGE_ID, pin_count = 0, is_dirty = False\<rparr>,
      page_table = ExtendibleHash_init bucket_size,
      replacer = [],
      free_list = [0 ..< pool_size],
      disk_log = []\<rparr>"

text \<open>
  The last part of \<open>FetchPage\<close> (steps 3 and 4): the frame takes the page id, the page
  table gets the binding, the page is read and the frame is pinned once and clean.
\<close>

definition FetchPage_load ::
  "(int \<Rightarrow> nat) \<Rightarrow> int \<Rightarrow> nat \<Rightarrow> BufferPoolManager \<Rightarrow> (error + nat option \<times> BufferPoolManager) option" where
  "FetchPage_load h pid f s =
     (let s1 = s\<lparr>pages := (pages s)[f := (pages s ! f)\<lparr>page_id := pid\<rparr>]\<rparr> in
      case Insert h pid f (page_table s1) of
        None \<Rightarrow> None
      | Some (Inl e) \<Rightarrow> Some (Inl e)
      | Some (Inr pt) \<Rightarrow>
          Some (Inr (Some f,
            s1\<lparr>page_table := pt,
               disk_log := disk_log s1 @ [ReadPage pid],
               pages := (pages s1)[f := (pages s1 ! f)\<lparr>is_dirty := False, pin_count := 1\<rparr>]\<rparr>)))"

definition FetchPage ::
  "(int \<Rightarrow> nat) \<Rightarrow> int \<Rightarrow> BufferPoolManager \<Rightarrow> (error + nat option \<times> BufferPoolManager) option" where
  "FetchPage h pid s =
     (if pid = INVALID_PAGE_ID then Some (Inr (None, s))
      else
        (case Find h pid (page_table s) of
           Inl e \<Rightarrow> Some (Inl e)
         | Inr (Some f) \<Rightarrow>
             Some (Inr (Some f,
               s\<lparr>pages := (pages s)[f := (pages s ! f)\<lparr>pin_count := pin_count (pages s ! f) + 1\<rparr>],
                 replacer := snd (Erase f (replacer s))\<rparr>))
         | Inr None \<Rightarrow>
             (case free_list s of
                f # rest \<Rightarrow> FetchPage_load h pid f (s\<lparr>free_list := rest\<rparr>)
              | [] \<Rightarrow>
                  (case Victim (replacer s) of
                     (None, r) \<Rightarrow> Some (Inr (None, s))
                   | (Some f, r) \<Rightarrow>
                       (let s1 = s\<lparr>replacer := r\<rparr> in
                        if pin_count (pages s1 ! f) \<noteq> 0 then Some (Inr (None, s1))
                        else
                          (let s2 = (if is_dirty (pages s1 ! f)
                                     then s1\<lparr>disk_log := disk_log s1 @ [WritePage (page_id (pages s1 ! f))]\<rparr>
                                     else s1)
                           in case Remove h (page_id (pages s2 ! f)) (page_table s2) of
                                Inl e \<Rightarrow> Some (Inl e)
                              | Inr (removed, pt) \<Rightarrow>
                                  FetchPage_load h pid f (s2\<lparr>page_table := pt\<rparr>)))))))"

definition UnpinPage ::
  "(int \<Rightarrow> nat) \<Rightarrow> int \<Rightarrow> bool \<Rightarrow> BufferPoolManager \<Rightarrow> error + bool \<times> BufferPoolManager" where
  "UnpinPage h pid dirty s =
     (case Find h pid (page_table s) of
        Inl e \<Rightarrow> Inl e
      | Inr None \<Rightarrow> Inr (False, s)
      | Inr (Some f) \<Rightarrow>
          if pin_count (pages s ! f) \<le> 0 then Inr (False, s)
          else
            (let p1 = (pages s ! f)\<lparr>pin_count := pin_count (pages s ! f) - 1\<rparr>;
                 r = (if pin_count p1 \<le> 0 then LRU_Insert f (replacer s) else replacer s)
             in Inr (True, s\<lparr>pages := (pages s)[f := p1\<lparr>is_dirty := dirty\<rparr>], replacer := r\<rparr>)))"

definition FlushPage ::
  "(int \<Rightarrow> nat) \<Rightarrow> int \<Rightarrow> BufferPoolManager \<Rightarrow> error + bool \<times> BufferPoolManager" where
  "FlushPage h pid s =
     (if pid = INVALID_PAGE_ID then Inr (False, s)
      else
        (case Find h pid (page_table s) of
           Inl e \<Rightarrow> Inl e
         | Inr (Some f) \<Rightarrow>
             Inr (True, s\<lparr>disk_log := disk_log s @ [WritePage (page_id (pages s ! f))]\<rparr>)
         | Inr None \<Rightarrow> Inr (False, s)))"

definition DeletePage ::
  "(int \<Rightarrow> nat) \<Rightarrow> int \<Rightarrow> BufferPoolManager \<Rightarrow> error + bool \<times> BufferPoolManager" where
  "DeletePage h pid s =
     (case Find h pid (page_table s) of
        Inl e \<Rightarrow> Inl e
      | Inr (Some f) \<Rightarrow>
          if pin_count (pages s ! f) > 0 then Inr (False, s)
          else
            (case Remove h (page_id (pages s ! f)) (page_table s) of
               Inl e \<Rightarrow> Inl e
             | Inr (removed, pt) \<Rightarrow>
                 Inr (True,
                   s\<lparr>page_table := pt,
                     pages := (pages s)[f := \<lparr>page_id = INVALID_PAGE_ID, pin_count = 0, is_dirty = False\<rparr>],
                     free_list := free_list s @ [f],
                     disk_log := disk_log s @ [DeallocatePage pid]\<rparr>))
      | Inr None \<Rightarrow> Inr (True, s\<lparr>disk_log := disk_log s @ [DeallocatePage pid]\<rparr>))"

text \<open>
  \<open>NewPage\<close>: a frame from the free list, else a victim of the replacer, taken as it
  comes (its pin count is not looked at).
\<close>

definition NewPage_frame :: "BufferPoolManager \<Rightarrow> (nat \<times> BufferPoolManager) option" where
  "NewPage_frame s =
     (case free_list s of
        f # rest \<Rightarrow> Some (f, s\<lparr>free_list := rest\<rparr>)
      | [] \<Rightarrow>
          (case Victim (replacer s) of
             (None, r) \<Rightarrow> None
           | (Some f, r) \<Rightarrow> Some (f, s\<lparr>replacer := r\<rparr>)))"

definition NewPage ::
  "(int \<Rightarrow> nat) \<Rightarrow> int \<Rightarrow> BufferPoolManager \<Rightarrow> (error + nat option \<times> BufferPoolManager) option" where
  "NewPage h new_id s =
     (case NewPage_frame s of
        None \<Rightarrow> Some (Inr (None, s))
      | Some (f, s1) \<Rightarrow>
          (let s2 = s1\<lparr>disk_log := disk_log s1 @ [AllocatePage new_id]\<rparr>;
               s3 = (if is_dirty (pages s2 ! f)
                     then s2\<lparr>disk_log := disk_log s2 @ [WritePage (page_id (pages s2 ! f))]\<rparr>
                     else s2)
           in case Remove h (page_id (pages s3 ! f)) (page_table s3) of
                Inl e \<Rightarrow> Some (Inl e)
              | Inr (removed, pt1) \<Rightarrow>
                  (case Insert h new_id f pt1 of
                     None \<Rightarrow> None
                   | Some (Inl e) \<Rightarrow> Some (Inl e)
                   | Some (Inr pt2) \<Rightarrow>
                       Some (Inr (Some f,
                         s3\<lparr>page_table := pt2,
                            pages := (pages s3)[f := \<lparr>page_id = new_id, pin_count = 1, is_dirty = False\<rparr>]\<rparr>)))))"

text \<open>A sequence of calls on the pool; it stops at the first call that does not return.\<close>

datatype bpm_call =
    CallFetchPage int
  | CallNewPage int
  | CallUnpinPage int bool
  | CallFlushPage int
  | CallDeletePage int

fun bpm_step :: "(int \<Rightarrow> nat) \<Rightarrow> BufferPoolManager \<Rightarrow> bpm_call \<Rightarrow> (error + BufferPoolManager) option" where
  "bpm_step h s (CallFetchPage pid) = map_option (map_sum id snd) (FetchPage h pid s)"
| "bpm_step h s (CallNewPage new_id) = map_option (map_sum id snd) (NewPage h new_id s)"
| "bpm_step h s (CallUnpinPage pid dirty) = Some (map_sum id snd (UnpinPage h pid dirty s))"
| "bpm_step h s (CallFlushPage pid) = Some (map_sum id snd (FlushPage h pid s))"
| "bpm_step h s (CallDeletePage pid) = Some (map_sum id snd (DeletePage h pid s))"

fun bpm_run :: "(int \<Rightarrow> nat) \<Rightarrow> BufferPoolManager \<Rightarrow> bpm_call list \<Rightarrow> (error + BufferPoolManager) option" where
  "bpm_run h s [] = Some (Inr s)"
| "bpm_run h s (c # cs) =
     (case bpm_step h s c of
        None \<Rightarrow> None
      | Some (Inl e) \<Rightarrow> Some (Inl e)
      | Some (Inr s') \<Rightarrow> bpm_run h s' cs)"

text \<open>
  A call removes a resident page when it is \<open>DeletePage\<close> of a page that is in the page
  table and whose frame is not pinned. \<open>removes_resident h s cs\<close> says that some call of
  the run \<open>cs\<close> from \<open>s\<close> does.
\<close>

fun removes_page :: "(int \<Rightarrow> nat) \<Rightarrow> BufferPoolManager \<Rightarrow> bpm_call \<Rightarrow> bool" where
  "removes_page h s (CallDeletePage pid) =
     (case Find h pid (page_table s) of
        Inr (Some f) \<Rightarrow> pin_count (pages s ! f) \<le> 0
      | _ \<Rightarrow> False)"
| "removes_page h s c = False"

fun removes_resident :: "(int \<Rightarrow> nat) \<Rightarrow> BufferPoolManager \<Rightarrow> bpm_call list \<Rightarrow> bool" where
  "removes_resident h s [] = False"
| "removes_resident h s (c # cs) =
     (removes_page h s c \<or>
      (case bpm_step h s c of
         Some (Inr s') \<Rightarrow> removes_resident h s' cs
       | _ \<Rightarrow> False))"

text \<open>
  \<open>std::hash<int>\<close> of libstdc++ is the conversion to \<open>size_t\<close>; it serves as the hash
  of the concrete runs below.
\<close>

definition std_hash :: "int \<Rightarrow> nat" where
  "std_hash k = nat (k mod 18446744073709551616)"

text \<open>
  Where a frame is: the frames some page id is bound to in the page table, and the three
  predicates the invariants are stated with.
\<close>

definition resident :: "(int \<Rightarrow> nat) \<Rightarrow> BufferPoolManager \<Rightarrow> nat \<Rightarrow> bool" where
  "resident h s f \<longleftrightarrow> (\<exists>pid. Find h pid (page_table s) = Inr (Some f))"



text \<open>
  \<open>table\<close> is the binding of a page id in the page table. \<open>bpm_inv\<close> holds in every
  state reached by returning calls: the free list has no duplicates, its frames are
  unpinned and bound to no page id, and a frame bound to a page id carries that id.
  \<open>lru_inv\<close> holds as long as no call has removed a resident page: the frames in the replacer
  are unpinned and not on the free list, and an unpinned frame is on the free list or in
  the replacer.
\<close>

definition table :: "(int \<Rightarrow> nat) \<Rightarrow> BufferPoolManager \<Rightarrow> int \<Rightarrow> nat option" where
  "table h s = lookup h (page_table s)"

definition bpm_inv :: "(int \<Rightarrow> nat) \<Rightarrow> BufferPoolManager \<Rightarrow> bool" where
  "bpm_inv h s \<longleftrightarrow>
     hash_inv h (page_table s) \<and> distinct (free_list s) \<and>
     (\<forall>f \<in> set (free_list s). f < length (pages s) \<and> pin_count (pages s ! f) = 0 \<and>
        (\<forall>pid. table h s pid \<noteq> Some f)) \<and>
     (\<forall>f \<in> set (replacer s). f < length (pages s)) \<and>
     (\<forall>pid f. table h s pid = Some f \<longrightarrow> f < length (pages s) \<and> page_id (pages s ! f) = pid)"

definition lru_inv :: "BufferPoolManager \<Rightarrow> bool" where
  "lru_inv s \<longleftrightarrow>
     distinct (replacer s) \<and>
     (\<forall>f \<in> set (replacer s). pin_count (pages s ! f) = 0 \<and> f \<notin> set (free_list s)) \<and>
     (\<forall>f < length (pages s). 0 \<le> pin_count (pages s ! f) \<and>
        (pin_count (pages s ! f) = 0 \<longrightarrow> f \<in> set (free_list s) \<or> f \<in> set (replacer s)))"

section \<open>LRU replacer: properties\<close>

lemma victim_scan_last: "vec \<noteq> [] \<Longrightarrow> victim_scan vec = Some (last vec)"
  unfolding victim_scan_def by (induction vec rule: rev_induct) simp_all

lemma erase_first_notin: "v \<notin> set vec \<Longrightarrow> erase_first v vec = vec"
  by (induction vec) auto

lemma erase_first_snoc:
  "erase_first v (vec @ [x]) = (if v \<in> set vec then erase_first v vec @ [x]
     else if x = v then vec else vec @ [x])"
  by (induction vec) auto

lemma set_erase_first: "distinct vec \<Longrightarrow> set (erase_first v vec) = set vec - {v}"
  by (induction vec) auto

lemma distinct_erase_first: "distinct vec \<Longrightarrow> distinct (erase_first v vec)"
  by (induction vec) (auto simp: set_erase_first)

lemma insert_all_snoc: "insert_all (ins @ [v]) = LRU_Insert v (insert_all ins)"
  by (simp add: insert_all_def)

lemma insert_all_set_distinct: "set (insert_all ins) = set ins \<and> distinct (insert_all ins)"
proof (induction ins rule: rev_induct)
  case Nil
  show ?case by (simp add: insert_all_def)
next
  case (snoc v ins)
  then show ?case
    by (auto simp: insert_all_snoc LRU_Insert_def set_erase_first distinct_erase_first)
qed

text \<open>Inserting first \<open>a\<close> and then \<open>ins\<close>: \<open>a\<close> stays at the back unless re-inserted.\<close>

lemma insert_all_Cons:
  "insert_all (a # ins) = (if a \<in> set ins then insert_all ins else insert_all ins @ [a])"
proof (induction ins rule: rev_induct)
  case Nil
  show ?case by (simp add: insert_all_def LRU_Insert_def)
next
  case (snoc v ins)
  have s: "set (insert_all ins) = set ins" by (simp add: insert_all_set_distinct)
  have "insert_all (a # ins @ [v]) = LRU_Insert v (insert_all (a # ins))"
    using insert_all_snoc [of "a # ins" v] by simp
  then show ?case
    using snoc s
    by (auto simp: insert_all_snoc LRU_Insert_def erase_first_snoc erase_first_notin)
qed

lemma last_insert_all:
  "ins \<noteq> [] \<Longrightarrow> last (insert_all ins) \<in> set ins \<and>
     (\<forall>x \<in> set ins. x = last (insert_all ins) \<or>
        last_insert ins (last (insert_all ins)) < last_insert ins x)"
proof (induction ins)
  case Nil
  then show ?case by simp
next
  case (Cons a ins)
  show ?case
  proof (cases "a \<in> set ins")
    case True
    then have ne: "ins \<noteq> []" by auto
    from True have eq: "insert_all (a # ins) = insert_all ins"
      by (simp add: insert_all_Cons)
    from Cons.IH [OF ne] True show ?thesis
      unfolding eq by auto
  next
    case False
    then have eq: "last (insert_all (a # ins)) = a"
      by (simp add: insert_all_Cons)
    from False show ?thesis unfolding eq by auto
  qed
qed

lemma older_than_all_iff:
  "older_than_all ins v xs \<longleftrightarrow> (\<forall>x \<in> set xs. x = v \<or> last_insert ins v < last_insert ins x)"
  by (induction xs) auto

text \<open>
  C8. \<open>Victim\<close> on a non-empty replacer returns the back of the ordering and removes
  it; on an empty replacer it returns absence and leaves the replacer as it was. After
  any non-empty sequence of \<open>Insert\<close> calls the element returned was inserted, and its
  most recent \<open>Insert\<close> is older than the most recent \<open>Insert\<close> of every other element.
\<close>

theorem Victim_returns_lru:
  "Victim ([] :: 'a list) = (None, []) \<and>
   (vec \<noteq> [] \<longrightarrow> Victim vec = (Some (last vec), butlast vec)) \<and>
   (ins \<noteq> [] \<longrightarrow> (\<exists>v. fst (Victim (insert_all ins)) = Some v \<and> v \<in> set ins \<and>
      older_than_all ins v ins \<and> snd (Victim (insert_all ins)) = butlast (insert_all ins)))"
proof (intro conjI impI)
  show "Victim ([] :: 'a list) = (None, [])" by (simp add: Victim_def)
next
  assume "vec \<noteq> []"
  then show "Victim vec = (Some (last vec), butlast vec)"
    by (simp add: Victim_def victim_scan_last)
next
  assume ne: "ins \<noteq> []"
  then have "set (insert_all ins) \<noteq> {}" by (simp add: insert_all_set_distinct)
  then have ne': "insert_all ins \<noteq> []" by auto
  from last_insert_all [OF ne] ne' show "\<exists>v. fst (Victim (insert_all ins)) = Some v \<and>
      v \<in> set ins \<and> older_than_all ins v ins \<and>
      snd (Victim (insert_all ins)) = butlast (insert_all ins)"
    by (simp add: Victim_def victim_scan_last older_than_all_iff)
qed

theorem Victim_returns_lru_witness:
  "Victim ([] :: nat list) = (None, []) \<and>
   Victim [3, 1, 2 :: nat] = (Some 2, [3, 1]) \<and>
   insert_all [1, 2, 1, 3 :: nat] = [3, 1, 2] \<and>
   (\<exists>v. fst (Victim (insert_all [1, 2, 1, 3 :: nat])) = Some v \<and> v \<in> set [1, 2, 1, 3] \<and>
      older_than_all [1, 2, 1, 3] v [1, 2, 1, 3] \<and>
      snd (Victim (insert_all [1, 2, 1, 3 :: nat])) = butlast (insert_all [1, 2, 1, 3]))"
  using Victim_returns_lru [of "[3, 1, 2 :: nat]" "[1, 2, 1, 3 :: nat]"]
  by (simp add: insert_all_def LRU_Insert_def)

section \<open>Lock manager: properties\<close>

lemmas lock_eval = LockShared_def LockShared_wait_def LockExclusive_def LockExclusive_wait_def
  LockUpgrade_def LockUpgrade_wait_def Unlock_def at_rid_def put_rid_def default_entry_def
  lock_world_init_def new_txn_def commit_step_def update_oldest_def min_txn_id_def

lemma strict_state_reached:
  "lock_run (lock_world_init True) [CallLockShared 1 7, SetState 1 COMMITTED] =
     Inr \<lparr>txns = new_txn(1 := committed_holder), manager = strict_manager,
          results = [Returned True]\<rparr>"
  by (simp add: lock_eval committed_holder_def strict_manager_def)

text \<open>
  C2. With the strict-2PL flag set, the guard \<open>state \<noteq> ABORTED \<or> state \<noteq> COMMITTED\<close>
  holds in every state, so \<open>Unlock\<close> of a held lock marks the transaction aborted,
  returns false and leaves the lock table as it was, a committed or aborted transaction
  included.
\<close>

theorem Unlock_strict_always_aborts:
  "strict_2PL lm \<Longrightarrow> rid \<in> shared_lock_set txn \<or> rid \<in> exclusive_lock_set txn \<Longrightarrow>
     Unlock txn rid lm = Inr (Returned False, txn\<lparr>state := ABORTED\<rparr>, lm)"
  by (cases "state txn") (auto simp: Unlock_def)

theorem Unlock_strict_always_aborts_witness:
  "strict_2PL strict_manager \<and> 7 \<in> shared_lock_set committed_holder \<and>
   state committed_holder = COMMITTED \<and>
   Unlock committed_holder 7 strict_manager =
     Inr (Returned False, committed_holder\<lparr>state := ABORTED\<rparr>, strict_manager)"
  using Unlock_strict_always_aborts [of strict_manager 7 committed_holder]
  by (simp add: committed_holder_def strict_manager_def)

text \<open>
  C5. Transaction 1 takes a shared lock on record 7, then transaction 2 asks for one. No
  exclusive lock is held, so the second call stores its own id in \<open>oldest\<close> and queues
  behind the first: the entry holds the requests of 1 and 2 with \<open>oldest = 2\<close>, while
  the smallest id among its requests is 1.
\<close>

theorem oldest_not_minimum_after_LockShared:
  "map_sum id
     (\<lambda>w. (results w, map txn_id (req_list (at_rid (manager w) 7)),
           oldest (at_rid (manager w) 7), min_txn_id (at_rid (manager w) 7)))
     (lock_run (lock_world_init False) [CallLockShared 1 (7::nat), CallLockShared 2 7]) =
   Inr ([Returned True, Waiting], [1, 2], 2, Some 1)"
  by (simp add: lock_eval)

text \<open>
  C7. Transaction 3 holds a shared lock on record 7 and transaction 2 waits for an
  exclusive one, so \<open>oldest = 2\<close> and \<open>exclusive_cnt\<close>, which counts granted exclusive
  requests only, is 0. \<open>LockShared\<close> by transaction 5 is then not aborted: its request
  is appended behind the exclusive waiter and the transaction stays \<open>GROWING\<close>.
\<close>

theorem LockShared_behind_exclusive_waiter:
  "map_sum id
     (\<lambda>w. (results w, oldest (at_rid (manager w) 7), exclusive_cnt (at_rid (manager w) 7)))
     (lock_run (lock_world_init False) [CallLockShared 3 (7::nat), CallLockExclusive 2 7]) =
   Inr ([Returned True, Waiting], 2, 0) \<and>
   map_sum id
     (\<lambda>w. (results w, state (txns w 5), req_list (at_rid (manager w) 7)))
     (lock_run (lock_world_init False)
        [CallLockShared 3 (7::nat), CallLockExclusive 2 7, CallLockShared 5 7]) =
   Inr ([Returned True, Waiting, Waiting], GROWING,
        [\<lparr>txn_id = 3, lock_mode = SHARED, granted = True\<rparr>,
         \<lparr>txn_id = 2, lock_mode = EXCLUSIVE, granted = False\<rparr>,
         \<lparr>txn_id = 5, lock_mode = SHARED, granted = False\<rparr>])"
  by (simp add: lock_eval)

section \<open>Extendible hash: properties\<close>

lemma nth_01: "b < 2 \<Longrightarrow> [0, Suc 0] ! b = b"
  by (cases b) (auto simp: less_Suc_eq)

lemma locate_inv:
  "hash_inv h s \<Longrightarrow> locate h s k = Inr (h k mod 2, h k mod 2, buckets s ! (h k mod 2))"
  by (simp add: hash_inv_def locate_def HashKey_def vget_def nth_01)

lemma Find_inv: "hash_inv h s \<Longrightarrow> Find h k s = Inr (lookup h s k)"
  by (simp add: Find_def locate_inv lookup_def)

lemma split_grow_fails:
  "length (J s) \<le> length (buckets s) \<Longrightarrow> b < length (J s) \<Longrightarrow> I s < INT_MAX \<Longrightarrow>
   2 * dirSize s \<le> INT_MAX \<Longrightarrow> jb < INT_MAX \<Longrightarrow> split_grow b jb s = Inl OutOfRange"
  by (simp add: split_grow_def ebind_def int_incr_def int_double_def vset_def Let_def)

lemma split_local_fails:
  "length (J s) \<le> length (buckets s) \<Longrightarrow> b < length (J s) \<Longrightarrow> jb < INT_MAX \<Longrightarrow>
     split_local b jb s = Inl OutOfRange"
  by (simp add: split_local_def ebind_def int_incr_def vset_def Let_def)

lemma Split_inv: "hash_inv h s \<Longrightarrow> d < 2 \<Longrightarrow> Split h d s = Inl OutOfRange"
proof -
  assume inv: "hash_inv h s" and d: "d < 2"
  then have g: "split_grow d 1 s = Inl OutOfRange"
    by (intro split_grow_fails) (simp_all add: hash_inv_def INT_MAX_def)
  from inv d have "vget (Dir s) d = Inr d" "vget (J s) d = Inr 1" "I s = 1"
    by (auto simp: hash_inv_def vget_def less_Suc_eq numeral_2_eq_2)
  with g show ?thesis by (simp add: Split_def ebind_def)
qed

lemma InsertAux_loop_inv:
  "hash_inv h s \<Longrightarrow> InsertAux_loop h k s =
     (if length (buckets s ! (h k mod 2)) = bucketSize s then Some (Inl OutOfRange)
      else Some (Inr (h k mod 2, s)))"
  by (subst InsertAux_loop.simps) (simp add: locate_inv Split_inv)

lemma Insert_inv:
  "hash_inv h s \<Longrightarrow> Insert h k v s =
     (if length (buckets s ! (h k mod 2)) = bucketSize s then Some (Inl OutOfRange)
      else Some (Inr (s\<lparr>buckets := (buckets s)[h k mod 2 := map_insert k v (buckets s ! (h k mod 2))]\<rparr>)))"
  by (simp add: Insert_def InsertAux_def InsertAux_loop_inv vget_def ebind_def hash_inv_def)

lemma Remove_inv:
  "hash_inv h s \<Longrightarrow> Remove h k s =
     Inr (lookup h s k \<noteq> None, s\<lparr>buckets := (buckets s)[h k mod 2 := map_erase k (buckets s ! (h k mod 2))]\<rparr>)"
  by (simp add: Remove_def locate_inv lookup_def)

lemma map_of_insort:
  "map_of (insort_key fst (k, v) b) k' = (if k' = k then Some v else map_of b k')"
  by (induction b) auto

lemma map_of_map_insert:
  "map_of (map_insert k v b) k' =
     (if k' = k then (case map_of b k of None \<Rightarrow> Some v | Some old \<Rightarrow> Some old) else map_of b k')"
  by (auto simp: map_insert_def map_of_insort split: option.splits)

lemma map_of_map_erase: "map_of (map_erase k b) k' = (if k' = k then None else map_of b k')"
  by (induction b) (auto simp: map_erase_def)

lemma hash_inv_init: "hash_inv h (ExtendibleHash_init n)"
  by (simp add: hash_inv_def ExtendibleHash_init_def less_Suc_eq numeral_2_eq_2)

lemma hash_inv_bucket:
  assumes "hash_inv h s" and "\<forall>k'. map_of b' k' \<noteq> None \<longrightarrow> h k' mod 2 = i"
  shows "hash_inv h (s\<lparr>buckets := (buckets s)[i := b']\<rparr>)"
proof -
  have "h k' mod 2 = b" if "b < 2" and "map_of ((buckets s)[i := b'] ! b) k' \<noteq> None" for b k'
  proof (cases "b = i")
    case True
    with that assms show ?thesis by (simp add: hash_inv_def)
  next
    case False
    with that have "map_of (buckets s ! b) k' \<noteq> None" by simp
    with assms(1) that(1) show ?thesis unfolding hash_inv_def by blast
  qed
  with assms(1) show ?thesis unfolding hash_inv_def by simp
qed

lemma lookup_bucket:
  assumes "hash_inv h s"
  shows "lookup h (s\<lparr>buckets := (buckets s)[i := b']\<rparr>) k' =
     (if h k' mod 2 = i then map_of b' k' else lookup h s k')"
  using assms by (simp add: hash_inv_def lookup_def)

lemma hash_inv_keys: "hash_inv h s \<Longrightarrow> map_of (buckets s ! (h k mod 2)) k' \<noteq> None \<Longrightarrow> h k' mod 2 = h k mod 2"
  by (auto simp: hash_inv_def)

lemma Insert_Inr:
  assumes "hash_inv h s" and "Insert h k v s = Some (Inr s')"
  shows "hash_inv h s'"
    and "lookup h s' k' = (if k' = k then (case lookup h s k of None \<Rightarrow> Some v | Some old \<Rightarrow> Some old)
           else lookup h s k')"
    and "length (buckets s ! (h k mod 2)) \<noteq> bucketSize s"
proof -
  let ?b = "buckets s ! (h k mod 2)"
  from assms have s': "s' = s\<lparr>buckets := (buckets s)[h k mod 2 := map_insert k v ?b]\<rparr>"
    and nf: "length ?b \<noteq> bucketSize s"
    by (auto simp: Insert_inv split: if_splits)
  show "length ?b \<noteq> bucketSize s" by (rule nf)
  have "\<forall>k'. map_of (map_insert k v ?b) k' \<noteq> None \<longrightarrow> h k' mod 2 = h k mod 2"
  proof (intro allI impI)
    fix k' assume a: "map_of (map_insert k v ?b) k' \<noteq> None"
    show "h k' mod 2 = h k mod 2"
    proof (cases "k' = k")
      case True
      then show ?thesis by simp
    next
      case False
      with a have "map_of ?b k' \<noteq> None" by (simp add: map_of_map_insert)
      then show ?thesis by (rule hash_inv_keys [OF assms(1)])
    qed
  qed
  then show "hash_inv h s'" unfolding s' by (rule hash_inv_bucket [OF assms(1)])
  show "lookup h s' k' = (if k' = k then (case lookup h s k of None \<Rightarrow> Some v | Some old \<Rightarrow> Some old)
           else lookup h s k')"
    unfolding s' lookup_bucket [OF assms(1)]
    by (auto simp: map_of_map_insert lookup_def)
qed

lemma Remove_Inr:
  assumes "hash_inv h s" and "Remove h k s = Inr (r, s')"
  shows "hash_inv h s'"
    and "lookup h s' k' = (if k' = k then None else lookup h s k')"
    and "r = (lookup h s k \<noteq> None)"
proof -
  let ?b = "buckets s ! (h k mod 2)"
  from assms have s': "s' = s\<lparr>buckets := (buckets s)[h k mod 2 := map_erase k ?b]\<rparr>"
    and r: "r = (lookup h s k \<noteq> None)"
    by (auto simp: Remove_inv)
  show "r = (lookup h s k \<noteq> None)" by (rule r)
  have "\<forall>k'. map_of (map_erase k ?b) k' \<noteq> None \<longrightarrow> h k' mod 2 = h k mod 2"
  proof (intro allI impI)
    fix k' assume a: "map_of (map_erase k ?b) k' \<noteq> None"
    then have "map_of ?b k' \<noteq> None" by (simp add: map_of_map_erase split: if_splits)
    then show "h k' mod 2 = h k mod 2" by (rule hash_inv_keys [OF assms(1)])
  qed
  then show "hash_inv h s'" unfolding s' by (rule hash_inv_bucket [OF assms(1)])
  show "lookup h s' k' = (if k' = k then None else lookup h s k')"
    unfolding s' lookup_bucket [OF assms(1)]
    by (auto simp: map_of_map_erase lookup_def)
qed

lemma hash_run_inv:
  "hash_inv h s \<Longrightarrow> hash_run h s cs = Some (Inr s') \<Longrightarrow> hash_inv h s'"
proof (induction cs arbitrary: s)
  case Nil
  then show ?case by simp
next
  case (Cons c cs)
  show ?case
  proof (cases c)
    case (CallInsert k v)
    with Cons.prems obtain s1 where 1: "Insert h k v s = Some (Inr s1)"
      and 2: "hash_run h s1 cs = Some (Inr s')"
      by (auto split: option.splits sum.splits)
    from Insert_Inr(1) [OF Cons.prems(1) 1] 2 show ?thesis by (rule Cons.IH)
  next
    case (CallRemove k)
    with Cons.prems obtain r s1 where 1: "Remove h k s = Inr (r, s1)"
      and 2: "hash_run h s1 cs = Some (Inr s')"
      by (auto split: option.splits sum.splits)
    from Remove_Inr(1) [OF Cons.prems(1) 1] 2 show ?thesis by (rule Cons.IH)
  qed
qed

lemmas hash_eval = Insert_def InsertAux_def InsertAux_loop.simps locate_def HashKey_def vget_def
  vset_def ExtendibleHash_init_def ebind_def map_insert_def map_erase_def Find_def Remove_def
  Split_def split_grow_def split_local_def int_incr_def int_double_def INT_MAX_def

lemma one_binding_reached:
  "hash_run id (ExtendibleHash_init 2) [CallInsert 0 10] = Some (Inr one_binding)"
  by (simp add: hash_eval one_binding_def)

lemma full_bucket_reached:
  "hash_run id (ExtendibleHash_init 1) [CallInsert 0 10] = Some (Inr full_bucket)"
  by (simp add: hash_eval full_bucket_def)

text \<open>
  C3. In every state reached from the constructor, a key directed to a full bucket finds
  that bucket at local depth equal to the global depth, and the split does not complete:
  after the new bucket is pushed, \<open>J[buckets.size() - 1]\<close> is assigned although \<open>J\<close>
  still has its two initial elements. \<open>Split\<close> and the \<open>Insert\<close> that called it end
  in the out-of-range access; no directory slot is rewritten.
\<close>

theorem Split_of_full_bucket_out_of_range:
  assumes "hash_run h (ExtendibleHash_init n) cs = Some (Inr s)"
    and "locate h s k = Inr (d, b, m)" and "length m = bucketSize s"
  shows "GetLocalDepth s b = Inr (GetGlobalDepth s) \<and> length (J s) = 2 \<and>
     Split h d s = Inl OutOfRange \<and> Insert h k v s = Some (Inl OutOfRange)"
proof -
  have inv: "hash_inv h s" using hash_inv_init assms(1) by (rule hash_run_inv)
  from assms(2) have d: "d = h k mod 2" and b: "b = h k mod 2" and m: "m = buckets s ! (h k mod 2)"
    by (auto simp: locate_inv [OF inv])
  have "d < 2" by (simp add: d)
  then have "Split h d s = Inl OutOfRange" by (rule Split_inv [OF inv])
  moreover have "Insert h k v s = Some (Inl OutOfRange)"
    using assms(3) by (simp add: Insert_inv [OF inv] m)
  moreover have "GetLocalDepth s b = Inr (GetGlobalDepth s)"
  proof -
    have "b < 2" by (simp add: b)
    then have "[Suc 0, Suc 0] ! b = Suc 0" by (cases b) (auto simp: less_Suc_eq)
    with inv \<open>b < 2\<close> show ?thesis
      by (simp add: GetLocalDepth_def GetGlobalDepth_def hash_inv_def vget_def)
  qed
  moreover from inv have "length (J s) = 2" by (simp add: hash_inv_def)
  ultimately show ?thesis by simp
qed

theorem Split_of_full_bucket_out_of_range_witness:
  "hash_run id (ExtendibleHash_init 1) [CallInsert 0 10] = Some (Inr full_bucket) \<and>
   locate id full_bucket 2 = Inr (0, 0, [(0, 10)]) \<and>
   length [(0 :: nat, 10 :: nat)] = bucketSize full_bucket \<and>
   GetLocalDepth full_bucket 0 = Inr (GetGlobalDepth full_bucket) \<and>
   Split id 0 full_bucket = Inl OutOfRange \<and>
   Insert id 2 20 full_bucket = Some (Inl OutOfRange)"
proof -
  have h1: "hash_run id (ExtendibleHash_init 1) [CallInsert 0 10] = Some (Inr full_bucket)"
    by (rule full_bucket_reached)
  have h2: "locate id full_bucket 2 = Inr (0, 0, [(0, 10)])"
    by (simp add: full_bucket_def locate_def HashKey_def vget_def)
  have h3: "length [(0 :: nat, 10 :: nat)] = bucketSize full_bucket"
    by (simp add: full_bucket_def)
  from Split_of_full_bucket_out_of_range [where v = "20 :: nat", OF h1 h2 h3] h1 h2 h3
  show ?thesis by blast
qed

text \<open>
  C4, as the code has it. \<open>Insert\<close> on a reached state always returns; when it returns
  a table, \<open>Find\<close> of the key gives the value that was bound before the call if there
  was one (\<open>std::map::insert\<close> keeps an existing binding) and the inserted value
  otherwise. \<open>Remove\<close> always returns a table, and \<open>Find\<close> of the key is then absent.
\<close>

theorem Find_after_Insert_Remove:
  assumes "hash_run h (ExtendibleHash_init n) cs = Some (Inr s)"
  shows "(\<exists>r. Insert h k v s = Some r) \<and>
     (\<forall>s'. Insert h k v s = Some (Inr s') \<longrightarrow>
        Find h k s' = Inr (Some (case Find h k s of Inr (Some old) \<Rightarrow> old | _ \<Rightarrow> v))) \<and>
     (\<exists>r s'. Remove h k s = Inr (r, s') \<and> Find h k s' = Inr None)"
proof -
  have inv: "hash_inv h s" using hash_inv_init assms by (rule hash_run_inv)
  have 1: "\<exists>r. Insert h k v s = Some r" by (simp add: Insert_inv [OF inv])
  have 2: "Find h k s' = Inr (Some (case Find h k s of Inr (Some old) \<Rightarrow> old | _ \<Rightarrow> v))"
    if "Insert h k v s = Some (Inr s')" for s'
    using Insert_Inr(1) [OF inv that] Insert_Inr(2) [OF inv that, of k]
    by (simp add: Find_inv inv split: option.splits)
  obtain r s' where r: "Remove h k s = Inr (r, s')" by (simp add: Remove_inv [OF inv])
  from Remove_Inr(1) [OF inv r] Remove_Inr(2) [OF inv r, of k] have "Find h k s' = Inr None"
    by (simp add: Find_inv)
  with r 1 2 show ?thesis by blast
qed

theorem Find_after_Insert_Remove_witness:
  "hash_run id (ExtendibleHash_init 2) [CallInsert 0 10] = Some (Inr one_binding) \<and>
   Find id 0 one_binding = Inr (Some 10) \<and>
   Insert id 0 20 one_binding = Some (Inr one_binding) \<and>
   Find id 0 one_binding = Inr (Some (case Find id 0 one_binding of Inr (Some old) \<Rightarrow> old | _ \<Rightarrow> 20)) \<and>
   (\<exists>r s'. Remove id 0 one_binding = Inr (r, s') \<and> Find id 0 s' = Inr None)"
proof -
  have h1: "hash_run id (ExtendibleHash_init 2) [CallInsert 0 10] = Some (Inr one_binding)"
    by (rule one_binding_reached)
  have h2: "Find id 0 one_binding = Inr (Some 10)"
    by (simp add: one_binding_def Find_def locate_def HashKey_def vget_def)
  have h3: "Insert id 0 20 one_binding = Some (Inr one_binding)"
    by (simp add: hash_eval one_binding_def)
  from Find_after_Insert_Remove [where k = 0 and v = "20 :: nat", OF h1] h1 h2 h3
  show ?thesis by blast
qed

text \<open>
  C4 as stated fails when the key is already bound: after \<open>Insert(0, 10)\<close> and
  \<open>Insert(0, 20)\<close> on a table of bucket size 2, \<open>Find(0)\<close> returns 10.
\<close>

theorem Insert_does_not_overwrite:
  "map_option (map_sum id (Find id 0))
     (hash_run id (ExtendibleHash_init 2) [CallInsert 0 10, CallInsert 0 (20 :: nat)]) =
   Some (Inr (Inr (Some (10 :: nat))))"
  by (simp add: hash_eval)

text \<open>
  C10. With bucket size 1 and the identity as hash, \<open>Insert(0, 10)\<close> fills the bucket
  of the even keys and \<open>Insert(2, 20)\<close> splits it: the write to \<open>J\<close> at index
  \<open>buckets.size() - 1 = 2\<close> is past the end of \<open>J\<close>, which has two elements.
\<close>

theorem Insert_split_writes_past_J:
  "hash_run id (ExtendibleHash_init 1) [CallInsert 0 10, CallInsert 2 (20 :: nat)] =
     Some (Inl OutOfRange)"
  by (simp add: hash_eval)

section \<open>Buffer pool manager: the invariant of all runs\<close>

lemma Remove_total:
  assumes "hash_inv h pt"
  shows "\<exists>r pt'. Remove h k pt = Inr (r, pt') \<and> hash_inv h pt' \<and>
           lookup h pt' = (lookup h pt)(k := None)"
proof -
  obtain r pt' where r: "Remove h k pt = Inr (r, pt')" by (simp add: Remove_inv [OF assms])
  have "lookup h pt' = (lookup h pt)(k := None)"
    by (rule ext) (simp add: Remove_Inr(2) [OF assms r])
  with r Remove_Inr(1) [OF assms r] show ?thesis by blast
qed

lemma Insert_cases:
  assumes "hash_inv h pt"
  shows "Insert h k v pt = Some (Inl OutOfRange) \<or>
     (\<exists>pt'. Insert h k v pt = Some (Inr pt') \<and> hash_inv h pt' \<and>
        lookup h pt' = (if lookup h pt k = None then (lookup h pt)(k := Some v) else lookup h pt))"
proof (cases "Insert h k v pt = Some (Inl OutOfRange)")
  case True
  then show ?thesis by simp
next
  case False
  then obtain pt' where r: "Insert h k v pt = Some (Inr pt')"
    by (auto simp: Insert_inv [OF assms] split: if_splits)
  have "lookup h pt' = (if lookup h pt k = None then (lookup h pt)(k := Some v) else lookup h pt)"
    by (rule ext) (auto simp: Insert_Inr(2) [OF assms r])
  with r Insert_Inr(1) [OF assms r] show ?thesis by blast
qed

lemma bpm_inv_Find: "bpm_inv h s \<Longrightarrow> Find h pid (page_table s) = Inr (table h s pid)"
  by (simp add: bpm_inv_def Find_inv table_def)

lemma Page_overwrite:
  "(p :: Page)\<lparr>page_id := a, is_dirty := d, pin_count := c\<rparr> = \<lparr>page_id = a, pin_count = c, is_dirty = d\<rparr>"
  by (cases p) simp

lemma FetchPage_load_effect:
  assumes "hash_inv h (page_table s)" and "f < length (pages s)"
    and "FetchPage_load h pid f s = Some (Inr (r, s'))" and "table h s pid = None"
  shows "r = Some f \<and> pages s' = (pages s)[f := \<lparr>page_id = pid, pin_count = 1, is_dirty = False\<rparr>] \<and>
     hash_inv h (page_table s') \<and> table h s' = (table h s)(pid := Some f) \<and>
     free_list s' = free_list s \<and> replacer s' = replacer s"
  using Insert_cases [OF assms(1), of pid f] assms(2-4)
  by (auto simp: FetchPage_load_def table_def Page_overwrite)


lemma Victim_nonempty: "vec \<noteq> [] \<Longrightarrow> Victim vec = (Some (last vec), butlast vec)"
  by (simp add: Victim_def victim_scan_last)

lemma bpm_inv_hash: "bpm_inv h s \<Longrightarrow> hash_inv h (page_table s)"
  by (simp add: bpm_inv_def)

lemma bpm_inv_replacer: "bpm_inv h s \<Longrightarrow> f \<in> set (replacer s) \<Longrightarrow> f < length (pages s)"
  by (simp add: bpm_inv_def)

lemma bpm_inv_free: "bpm_inv h s \<Longrightarrow> f \<in> set (free_list s) \<Longrightarrow> f < length (pages s)"
  by (simp add: bpm_inv_def)

lemma FetchPage_cases:
  assumes inv: "bpm_inv h s" and run: "FetchPage h pid s = Some (Inr (r, s'))"
  obtains
    (invalid) "pid = INVALID_PAGE_ID" "r = None" "s' = s"
  | (hit) f where "pid \<noteq> INVALID_PAGE_ID" "table h s pid = Some f" "r = Some f"
      "pages s' = (pages s)[f := (pages s ! f)\<lparr>pin_count := pin_count (pages s ! f) + 1\<rparr>]"
      "page_table s' = page_table s" "free_list s' = free_list s"
      "replacer s' = erase_first f (replacer s)"
  | (free) f rest where "pid \<noteq> INVALID_PAGE_ID" "table h s pid = None" "free_list s = f # rest"
      "r = Some f"
      "pages s' = (pages s)[f := \<lparr>page_id = pid, pin_count = 1, is_dirty = False\<rparr>]"
      "hash_inv h (page_table s')" "table h s' = (table h s)(pid := Some f)"
      "free_list s' = rest" "replacer s' = replacer s"
  | (none) "pid \<noteq> INVALID_PAGE_ID" "table h s pid = None" "free_list s = []" "replacer s = []"
      "r = None" "s' = s"
  | (pinned) "pid \<noteq> INVALID_PAGE_ID" "table h s pid = None" "free_list s = []"
      "replacer s \<noteq> []" "pin_count (pages s ! last (replacer s)) \<noteq> 0" "r = None"
      "pages s' = pages s" "page_table s' = page_table s" "free_list s' = []"
      "replacer s' = butlast (replacer s)"
  | (victim) f where "pid \<noteq> INVALID_PAGE_ID" "table h s pid = None" "free_list s = []"
      "replacer s \<noteq> []" "f = last (replacer s)" "pin_count (pages s ! f) = 0" "r = Some f"
      "pages s' = (pages s)[f := \<lparr>page_id = pid, pin_count = 1, is_dirty = False\<rparr>]"
      "hash_inv h (page_table s')"
      "table h s' = ((table h s)(page_id (pages s ! f) := None))(pid := Some f)"
      "free_list s' = []" "replacer s' = butlast (replacer s)"
proof (cases "pid = INVALID_PAGE_ID")
  case True
  from run True have "r = None" and "s' = s" by (simp_all add: FetchPage_def)
  with True show ?thesis by (rule invalid)
next
  case valid: False
  note F = bpm_inv_Find [OF inv, of pid]
  show ?thesis
  proof (cases "table h s pid")
    case (Some f)
    from run valid F Some have "r = Some f"
      and "pages s' = (pages s)[f := (pages s ! f)\<lparr>pin_count := pin_count (pages s ! f) + 1\<rparr>]"
      and "page_table s' = page_table s" and "free_list s' = free_list s"
      and "replacer s' = erase_first f (replacer s)"
      by (auto simp: FetchPage_def Erase_def)
    with valid Some show ?thesis by (rule hit)
  next
    case None
    show ?thesis
    proof (cases "free_list s")
      case (Cons f rest)
      let ?s0 = "s\<lparr>free_list := rest\<rparr>"
      from Cons run valid F None have l: "FetchPage_load h pid f ?s0 = Some (Inr (r, s'))"
        by (simp add: FetchPage_def)
      have 1: "f < length (pages ?s0)" using bpm_inv_free [OF inv, of f] Cons by simp
      have 2: "hash_inv h (page_table ?s0)" using bpm_inv_hash [OF inv] by simp
      have 3: "table h ?s0 pid = None" using None by (simp add: table_def)
      have 4: "table h ?s0 = table h s" by (simp add: table_def)
      from FetchPage_load_effect [OF 2 1 l 3]
      have "r = Some f"
        and "pages s' = (pages s)[f := \<lparr>page_id = pid, pin_count = 1, is_dirty = False\<rparr>]"
        and "hash_inv h (page_table s')" and "table h s' = (table h s)(pid := Some f)"
        and "free_list s' = rest" and "replacer s' = replacer s"
        unfolding 4 by simp_all
      with valid None Cons show ?thesis by (rule free)
    next
      case Nil
      show ?thesis
      proof (cases "replacer s = []")
        case True
        with run valid F None Nil have "r = None" and "s' = s"
          by (simp_all add: FetchPage_def Victim_def)
        with valid None Nil True show ?thesis by (rule none)
      next
        case ne: False
        let ?f = "last (replacer s)"
        show ?thesis
        proof (cases "pin_count (pages s ! ?f) = 0")
          case False
          with run valid F None Nil ne have "r = None" and "pages s' = pages s"
            and "page_table s' = page_table s" and "free_list s' = []"
            and "replacer s' = butlast (replacer s)"
            by (auto simp: FetchPage_def Victim_nonempty)
          with valid None Nil ne False show ?thesis by (rule pinned)
        next
          case True
          let ?s2 = "if is_dirty (pages s ! ?f)
            then s\<lparr>replacer := butlast (replacer s),
                   disk_log := disk_log s @ [WritePage (page_id (pages s ! ?f))]\<rparr>
            else s\<lparr>replacer := butlast (replacer s)\<rparr>"
          obtain rem pt where rm: "Remove h (page_id (pages s ! ?f)) (page_table s) = Inr (rem, pt)"
            and hpt: "hash_inv h pt"
            and lpt: "lookup h pt = (lookup h (page_table s))(page_id (pages s ! ?f) := None)"
            using Remove_total [OF bpm_inv_hash [OF inv]] by blast
          let ?s0 = "?s2\<lparr>page_table := pt\<rparr>"
          from run valid F None Nil ne True rm
          have l: "FetchPage_load h pid ?f ?s0 = Some (Inr (r, s'))"
            by (simp add: FetchPage_def Victim_nonempty Let_def split: if_splits)
          have 1: "?f < length (pages ?s0)" using bpm_inv_replacer [OF inv, of ?f] ne by simp
          have 2: "hash_inv h (page_table ?s0)" using hpt by simp
          have 4: "table h ?s0 = (table h s)(page_id (pages s ! ?f) := None)"
            using lpt by (simp add: table_def)
          have 3: "table h ?s0 pid = None" unfolding 4 using None by simp
          from FetchPage_load_effect [OF 2 1 l 3]
          have "r = Some ?f"
            and "pages s' = (pages s)[?f := \<lparr>page_id = pid, pin_count = 1, is_dirty = False\<rparr>]"
            and "hash_inv h (page_table s')"
            and "table h s' = ((table h s)(page_id (pages s ! ?f) := None))(pid := Some ?f)"
            and "free_list s' = []" and "replacer s' = butlast (replacer s)"
            unfolding 4 using Nil by simp_all
          with valid None Nil ne refl True show ?thesis by (rule victim)
        qed
      qed
    qed
  qed
qed


lemma NewPage_cases:
  assumes inv: "bpm_inv h s" and run: "NewPage h nid s = Some (Inr (r, s'))"
  obtains
    (none) "free_list s = []" "replacer s = []" "r = None" "s' = s"
  | (free) f rest where "free_list s = f # rest" "r = Some f"
      "pages s' = (pages s)[f := \<lparr>page_id = nid, pin_count = 1, is_dirty = False\<rparr>]"
      "hash_inv h (page_table s')"
      "table h s' = (if ((table h s)(page_id (pages s ! f) := None)) nid = None
         then (table h s)(page_id (pages s ! f) := None, nid := Some f)
         else (table h s)(page_id (pages s ! f) := None))"
      "free_list s' = rest" "replacer s' = replacer s"
  | (victim) f where "free_list s = []" "replacer s \<noteq> []" "f = last (replacer s)" "r = Some f"
      "pages s' = (pages s)[f := \<lparr>page_id = nid, pin_count = 1, is_dirty = False\<rparr>]"
      "hash_inv h (page_table s')"
      "table h s' = (if ((table h s)(page_id (pages s ! f) := None)) nid = None
         then (table h s)(page_id (pages s ! f) := None, nid := Some f)
         else (table h s)(page_id (pages s ! f) := None))"
      "free_list s' = []" "replacer s' = butlast (replacer s)"
proof -
  have step: "r = Some f \<and>
      pages s' = (pages s)[f := \<lparr>page_id = nid, pin_count = 1, is_dirty = False\<rparr>] \<and>
      hash_inv h (page_table s') \<and>
      table h s' = (if ((table h s)(page_id (pages s ! f) := None)) nid = None
         then (table h s)(page_id (pages s ! f) := None, nid := Some f)
         else (table h s)(page_id (pages s ! f) := None)) \<and>
      free_list s' = free_list s1 \<and> replacer s' = replacer s1"
    if fr: "NewPage_frame s = Some (f, s1)" and p: "pages s1 = pages s"
      and t: "page_table s1 = page_table s" for f s1
  proof -
    let ?old = "page_id (pages s ! f)"
    obtain rem pt1 where rm: "Remove h ?old (page_table s) = Inr (rem, pt1)"
      and h1: "hash_inv h pt1"
      and l1: "lookup h pt1 = (lookup h (page_table s))(?old := None)"
      using Remove_total [OF bpm_inv_hash [OF inv]] by blast
    from Insert_cases [OF h1, of nid f] run fr p t rm
    obtain pt2 where ins: "Insert h nid f pt1 = Some (Inr pt2)" and h2: "hash_inv h pt2"
      and l2: "lookup h pt2 = (if lookup h pt1 nid = None then (lookup h pt1)(nid := Some f)
           else lookup h pt1)"
      by (auto simp: NewPage_def Let_def split: if_splits)
    from run fr p t rm ins have "r = Some f"
      and "pages s' = (pages s)[f := \<lparr>page_id = nid, pin_count = 1, is_dirty = False\<rparr>]"
      and "page_table s' = pt2" and "free_list s' = free_list s1" and "replacer s' = replacer s1"
      by (auto simp: NewPage_def Let_def split: if_splits)
    with h2 l2 l1 show ?thesis by (simp add: table_def)
  qed
  show ?thesis
  proof (cases "free_list s")
    case (Cons f rest)
    then have fr: "NewPage_frame s = Some (f, s\<lparr>free_list := rest\<rparr>)"
      by (simp add: NewPage_frame_def)
    from step [OF fr] Cons free [of f rest] show ?thesis by simp
  next
    case Nil
    show ?thesis
    proof (cases "replacer s = []")
      case True
      with Nil have "NewPage_frame s = None" by (simp add: NewPage_frame_def Victim_def)
      with run have "r = None" and "s' = s" by (simp_all add: NewPage_def)
      with Nil True show ?thesis by (rule none)
    next
      case False
      with Nil have fr: "NewPage_frame s = Some (last (replacer s), s\<lparr>replacer := butlast (replacer s)\<rparr>)"
        by (simp add: NewPage_frame_def Victim_nonempty)
      from step [OF fr] Nil False victim [of "last (replacer s)"] show ?thesis by simp
    qed
  qed
qed

lemma UnpinPage_cases:
  assumes inv: "bpm_inv h s" and run: "UnpinPage h pid d s = Inr (r, s')"
  obtains
    (absent) "table h s pid = None" "r = False" "s' = s"
  | (unpinned) f where "table h s pid = Some f" "pin_count (pages s ! f) \<le> 0" "r = False" "s' = s"
  | (ok) f where "table h s pid = Some f" "pin_count (pages s ! f) > 0" "r = True"
      "pages s' = (pages s)[f := (pages s ! f)\<lparr>pin_count := pin_count (pages s ! f) - 1, is_dirty := d\<rparr>]"
      "page_table s' = page_table s" "free_list s' = free_list s"
      "replacer s' = (if pin_count (pages s ! f) - 1 \<le> 0 then LRU_Insert f (replacer s) else replacer s)"
proof -
  note F = bpm_inv_Find [OF inv, of pid]
  show ?thesis
  proof (cases "table h s pid")
    case None
    with run F have "r = False" and "s' = s" by (simp_all add: UnpinPage_def)
    with None show ?thesis by (rule absent)
  next
    case (Some f)
    show ?thesis
    proof (cases "pin_count (pages s ! f) \<le> 0")
      case True
      with run F Some have "r = False" and "s' = s" by (simp_all add: UnpinPage_def)
      with Some True show ?thesis by (rule unpinned)
    next
      case False
      then have pos: "pin_count (pages s ! f) > 0" by simp
      from run F Some False have "r = True"
        and "pages s' = (pages s)[f := (pages s ! f)\<lparr>pin_count := pin_count (pages s ! f) - 1, is_dirty := d\<rparr>]"
        and "page_table s' = page_table s" and "free_list s' = free_list s"
        and "replacer s' = (if pin_count (pages s ! f) - 1 \<le> 0 then LRU_Insert f (replacer s) else replacer s)"
        by (auto simp: UnpinPage_def Let_def)
      with Some pos show ?thesis by (rule ok)
    qed
  qed
qed

lemma DeletePage_cases:
  assumes inv: "bpm_inv h s" and run: "DeletePage h pid s = Inr (r, s')"
  obtains
    (absent) "table h s pid = None" "r = True" "pages s' = pages s"
      "page_table s' = page_table s" "free_list s' = free_list s" "replacer s' = replacer s"
  | (pinned) f where "table h s pid = Some f" "pin_count (pages s ! f) > 0" "r = False" "s' = s"
  | (deleted) f where "table h s pid = Some f" "pin_count (pages s ! f) \<le> 0" "r = True"
      "pages s' = (pages s)[f := \<lparr>page_id = INVALID_PAGE_ID, pin_count = 0, is_dirty = False\<rparr>]"
      "hash_inv h (page_table s')"
      "table h s' = (table h s)(page_id (pages s ! f) := None)"
      "free_list s' = free_list s @ [f]" "replacer s' = replacer s"
proof -
  note F = bpm_inv_Find [OF inv, of pid]
  show ?thesis
  proof (cases "table h s pid")
    case None
    with run F have "r = True" and "pages s' = pages s"
      and "page_table s' = page_table s" and "free_list s' = free_list s"
      and "replacer s' = replacer s"
      by (auto simp: DeletePage_def)
    with None show ?thesis by (rule absent)
  next
    case (Some f)
    show ?thesis
    proof (cases "pin_count (pages s ! f) > 0")
      case True
      with run F Some have "r = False" and "s' = s" by (simp_all add: DeletePage_def)
      with Some True show ?thesis by (rule pinned)
    next
      case False
      then have le: "pin_count (pages s ! f) \<le> 0" by simp
      obtain rem pt where rm: "Remove h (page_id (pages s ! f)) (page_table s) = Inr (rem, pt)"
        and hpt: "hash_inv h pt"
        and lpt: "lookup h pt = (lookup h (page_table s))(page_id (pages s ! f) := None)"
        using Remove_total [OF bpm_inv_hash [OF inv]] by blast
      from run F Some False rm have "r = True"
        and "pages s' = (pages s)[f := \<lparr>page_id = INVALID_PAGE_ID, pin_count = 0, is_dirty = False\<rparr>]"
        and "page_table s' = pt"
        and "free_list s' = free_list s @ [f]" and "replacer s' = replacer s"
        by (auto simp: DeletePage_def)
      with hpt lpt have "r = True"
        and "pages s' = (pages s)[f := \<lparr>page_id = INVALID_PAGE_ID, pin_count = 0, is_dirty = False\<rparr>]"
        and "hash_inv h (page_table s')"
        and "table h s' = (table h s)(page_id (pages s ! f) := None)"
        and "free_list s' = free_list s @ [f]" and "replacer s' = replacer s"
        by (simp_all add: table_def)
      with Some le show ?thesis by (rule deleted)
    qed
  qed
qed

lemma FlushPage_fields:
  assumes "bpm_inv h s" and "FlushPage h pid s = Inr (r, s')"
  shows "pages s' = pages s \<and> page_table s' = page_table s \<and> free_list s' = free_list s \<and>
     replacer s' = replacer s"
  using assms(2) bpm_inv_Find [OF assms(1), of pid]
  by (auto simp: FlushPage_def split: if_splits option.splits)


lemma bpm_inv_table: "bpm_inv h s \<Longrightarrow> table h s x = Some g \<Longrightarrow> g < length (pages s) \<and> page_id (pages s ! g) = x"
  by (simp add: bpm_inv_def)

lemma bpm_inv_free_table: "bpm_inv h s \<Longrightarrow> g \<in> set (free_list s) \<Longrightarrow> table h s x \<noteq> Some g"
  by (simp add: bpm_inv_def)

lemma bpm_inv_free_pin: "bpm_inv h s \<Longrightarrow> g \<in> set (free_list s) \<Longrightarrow> pin_count (pages s ! g) = 0"
  by (simp add: bpm_inv_def)

lemma bpm_inv_distinct: "bpm_inv h s \<Longrightarrow> distinct (free_list s)"
  by (simp add: bpm_inv_def)

lemma bpm_inv_same:
  assumes "bpm_inv h s" and "pages s' = pages s" and "page_table s' = page_table s"
    and "free_list s' = free_list s" and "set (replacer s') \<subseteq> set (replacer s)"
  shows "bpm_inv h s'"
  using assms unfolding bpm_inv_def table_def by auto

lemma bpm_inv_update:
  assumes inv: "bpm_inv h s"
    and hash: "hash_inv h (page_table s')"
    and pg: "pages s' = (pages s)[f := p]"
    and f: "f < length (pages s)"
    and d: "distinct (free_list s')"
    and fr: "set (free_list s') \<subseteq> insert f (set (free_list s))"
    and ff: "f \<in> set (free_list s') \<Longrightarrow> pin_count p = 0 \<and> (\<forall>x. table h s' x \<noteq> Some f)"
    and rep: "set (replacer s') \<subseteq> insert f (set (replacer s))"
    and tab: "\<And>x g. table h s' x = Some g \<Longrightarrow>
        (g = f \<and> page_id p = x) \<or> (g \<noteq> f \<and> table h s x = Some g)"
  shows "bpm_inv h s'"
proof -
  have 3: "g < length (pages s') \<and> pin_count (pages s' ! g) = 0 \<and> (\<forall>x. table h s' x \<noteq> Some g)"
    if g: "g \<in> set (free_list s')" for g
  proof (cases "g = f")
    case True
    with ff g f pg show ?thesis by simp
  next
    case False
    with g fr have g': "g \<in> set (free_list s)" by auto
    have "table h s' x \<noteq> Some g" for x
      using tab [of x g] False bpm_inv_free_table [OF inv g', of x] by auto
    with False pg bpm_inv_free [OF inv g'] bpm_inv_free_pin [OF inv g'] show ?thesis by simp
  qed
  have 4: "g < length (pages s')" if "g \<in> set (replacer s')" for g
    using that rep f pg bpm_inv_replacer [OF inv, of g] by auto
  have 5: "g < length (pages s') \<and> page_id (pages s' ! g) = x" if t: "table h s' x = Some g" for x g
  proof (cases "g = f")
    case True
    with tab [OF t] f pg show ?thesis by simp
  next
    case False
    with tab [OF t] have "table h s x = Some g" by simp
    from bpm_inv_table [OF inv this] False pg show ?thesis by simp
  qed
  from hash d 3 4 5 show ?thesis unfolding bpm_inv_def by blast
qed

lemma set_butlast_subset: "set (butlast xs) \<subseteq> set xs"
  by (induction xs) auto

lemma set_erase_first_subset: "set (erase_first v xs) \<subseteq> set xs"
  by (induction xs) auto

lemma FetchPage_bpm_inv:
  assumes inv: "bpm_inv h s" and run: "FetchPage h pid s = Some (Inr (r, s'))"
  shows "bpm_inv h s'"
  using inv run
proof (cases rule: FetchPage_cases)
  case invalid
  with inv show ?thesis by simp
next
  case (hit f)
  note T = bpm_inv_table [OF inv hit(2)]
  show ?thesis
  proof (rule bpm_inv_update [OF inv _ hit(4)])
    show "hash_inv h (page_table s')" using hit(5) bpm_inv_hash [OF inv] by simp
    show "f < length (pages s)" using T by simp
    show "distinct (free_list s')" using hit(6) bpm_inv_distinct [OF inv] by simp
    show "set (free_list s') \<subseteq> insert f (set (free_list s))" using hit(6) by auto
    show "pin_count ((pages s ! f)\<lparr>pin_count := pin_count (pages s ! f) + 1\<rparr>) = 0 \<and>
        (\<forall>x. table h s' x \<noteq> Some f)" if "f \<in> set (free_list s')"
      using that hit(6) bpm_inv_free_table [OF inv, of f pid] hit(2) by simp
    show "set (replacer s') \<subseteq> insert f (set (replacer s))"
      using hit(7) set_erase_first_subset [of f "replacer s"] by auto
    show "(g = f \<and> page_id ((pages s ! f)\<lparr>pin_count := pin_count (pages s ! f) + 1\<rparr>) = x) \<or>
        (g \<noteq> f \<and> table h s x = Some g)" if "table h s' x = Some g" for x g
      using that hit(5) bpm_inv_table [OF inv, of x g] by (auto simp: table_def)
  qed
next
  case (free f rest)
  have fin: "f \<in> set (free_list s)" using free(3) by simp
  show ?thesis
  proof (rule bpm_inv_update [OF inv free(6) free(5)])
    show "f < length (pages s)" using bpm_inv_free [OF inv fin] .
    show "distinct (free_list s')" using free(3,8) bpm_inv_distinct [OF inv] by simp
    show "set (free_list s') \<subseteq> insert f (set (free_list s))" using free(3,8) by auto
    show "pin_count \<lparr>page_id = pid, pin_count = 1, is_dirty = False\<rparr> = 0 \<and>
        (\<forall>x. table h s' x \<noteq> Some f)" if "f \<in> set (free_list s')"
      using that free(3,8) bpm_inv_distinct [OF inv] by simp
    show "set (replacer s') \<subseteq> insert f (set (replacer s))" using free(9) by auto
    show "(g = f \<and> page_id \<lparr>page_id = pid, pin_count = 1, is_dirty = False\<rparr> = x) \<or>
        (g \<noteq> f \<and> table h s x = Some g)" if "table h s' x = Some g" for x g
      using that free(7) bpm_inv_free_table [OF inv fin, of x] by (auto split: if_splits)
  qed
next
  case none
  with inv show ?thesis by simp
next
  case pinned
  show ?thesis
    by (rule bpm_inv_same [OF inv pinned(7) pinned(8)])
       (simp_all add: pinned set_butlast_subset)
next
  case (victim f)
  have fin: "f \<in> set (replacer s)" using victim(4,5) by simp
  show ?thesis
  proof (rule bpm_inv_update [OF inv victim(9) victim(8)])
    show "f < length (pages s)" using bpm_inv_replacer [OF inv fin] .
    show "distinct (free_list s')" using victim(11) by simp
    show "set (free_list s') \<subseteq> insert f (set (free_list s))" using victim(11) by simp
    show "pin_count \<lparr>page_id = pid, pin_count = 1, is_dirty = False\<rparr> = 0 \<and>
        (\<forall>x. table h s' x \<noteq> Some f)" if "f \<in> set (free_list s')"
      using that victim(11) by simp
    show "set (replacer s') \<subseteq> insert f (set (replacer s))"
      using victim(12) set_butlast_subset [of "replacer s"] by auto
    show "(g = f \<and> page_id \<lparr>page_id = pid, pin_count = 1, is_dirty = False\<rparr> = x) \<or>
        (g \<noteq> f \<and> table h s x = Some g)" if "table h s' x = Some g" for x g
      using that victim(10) bpm_inv_table [OF inv, of x f] by (auto split: if_splits)
  qed
qed


lemma NewPage_bpm_inv:
  assumes inv: "bpm_inv h s" and run: "NewPage h nid s = Some (Inr (r, s'))"
  shows "bpm_inv h s'"
  using inv run
proof (cases rule: NewPage_cases)
  case none
  with inv show ?thesis by simp
next
  case (free f rest)
  have fin: "f \<in> set (free_list s)" using free(1) by simp
  show ?thesis
  proof (rule bpm_inv_update [OF inv free(4) free(3)])
    show "f < length (pages s)" using bpm_inv_free [OF inv fin] .
    show "distinct (free_list s')" using free(1,6) bpm_inv_distinct [OF inv] by simp
    show "set (free_list s') \<subseteq> insert f (set (free_list s))" using free(1,6) by auto
    show "pin_count \<lparr>page_id = nid, pin_count = 1, is_dirty = False\<rparr> = 0 \<and>
        (\<forall>x. table h s' x \<noteq> Some f)" if "f \<in> set (free_list s')"
      using that free(1,6) bpm_inv_distinct [OF inv] by simp
    show "set (replacer s') \<subseteq> insert f (set (replacer s))" using free(7) by auto
    show "(g = f \<and> page_id \<lparr>page_id = nid, pin_count = 1, is_dirty = False\<rparr> = x) \<or>
        (g \<noteq> f \<and> table h s x = Some g)" if "table h s' x = Some g" for x g
      using that free(5) bpm_inv_free_table [OF inv fin, of x] by (auto split: if_splits)
  qed
next
  case (victim f)
  have fin: "f \<in> set (replacer s)" using victim(2,3) by simp
  show ?thesis
  proof (rule bpm_inv_update [OF inv victim(6) victim(5)])
    show "f < length (pages s)" using bpm_inv_replacer [OF inv fin] .
    show "distinct (free_list s')" using victim(8) by simp
    show "set (free_list s') \<subseteq> insert f (set (free_list s))" using victim(8) by simp
    show "pin_count \<lparr>page_id = nid, pin_count = 1, is_dirty = False\<rparr> = 0 \<and>
        (\<forall>x. table h s' x \<noteq> Some f)" if "f \<in> set (free_list s')"
      using that victim(8) by simp
    show "set (replacer s') \<subseteq> insert f (set (replacer s))"
      using victim(9) set_butlast_subset [of "replacer s"] by auto
    show "(g = f \<and> page_id \<lparr>page_id = nid, pin_count = 1, is_dirty = False\<rparr> = x) \<or>
        (g \<noteq> f \<and> table h s x = Some g)" if "table h s' x = Some g" for x g
      using that victim(7) bpm_inv_table [OF inv, of x f] by (auto split: if_splits)
  qed
qed

lemma set_LRU_Insert_subset: "set (LRU_Insert f xs) \<subseteq> insert f (set xs)"
  using set_erase_first_subset [of f xs] by (auto simp: LRU_Insert_def)

lemma UnpinPage_bpm_inv:
  assumes inv: "bpm_inv h s" and run: "UnpinPage h pid d s = Inr (r, s')"
  shows "bpm_inv h s'"
  using inv run
proof (cases rule: UnpinPage_cases)
  case absent
  with inv show ?thesis by simp
next
  case (unpinned f)
  with inv show ?thesis by simp
next
  case (ok f)
  note T = bpm_inv_table [OF inv ok(1)]
  show ?thesis
  proof (rule bpm_inv_update [OF inv _ ok(4)])
    show "hash_inv h (page_table s')" using ok(5) bpm_inv_hash [OF inv] by simp
    show "f < length (pages s)" using T by simp
    show "distinct (free_list s')" using ok(6) bpm_inv_distinct [OF inv] by simp
    show "set (free_list s') \<subseteq> insert f (set (free_list s))" using ok(6) by auto
    show "pin_count ((pages s ! f)\<lparr>pin_count := pin_count (pages s ! f) - 1, is_dirty := d\<rparr>) = 0 \<and>
        (\<forall>x. table h s' x \<noteq> Some f)" if "f \<in> set (free_list s')"
      using that ok(6) bpm_inv_free_table [OF inv, of f pid] ok(1) by simp
    show "set (replacer s') \<subseteq> insert f (set (replacer s))"
      using ok(7) set_LRU_Insert_subset [of f "replacer s"] by (auto split: if_splits)
    show "(g = f \<and> page_id ((pages s ! f)\<lparr>pin_count := pin_count (pages s ! f) - 1, is_dirty := d\<rparr>) = x) \<or>
        (g \<noteq> f \<and> table h s x = Some g)" if "table h s' x = Some g" for x g
      using that ok(5) bpm_inv_table [OF inv, of x g] by (auto simp: table_def)
  qed
qed

lemma DeletePage_bpm_inv:
  assumes inv: "bpm_inv h s" and run: "DeletePage h pid s = Inr (r, s')"
  shows "bpm_inv h s'"
  using inv run
proof (cases rule: DeletePage_cases)
  case absent
  show ?thesis by (rule bpm_inv_same [OF inv absent(3,4,5)]) (simp add: absent(6))
next
  case (pinned f)
  with inv show ?thesis by simp
next
  case (deleted f)
  note T = bpm_inv_table [OF inv deleted(1)]
  have nf: "f \<notin> set (free_list s)" using bpm_inv_free_table [OF inv, of f pid] deleted(1) by auto
  show ?thesis
  proof (rule bpm_inv_update [OF inv deleted(5) deleted(4)])
    show "f < length (pages s)" using T by simp
    show "distinct (free_list s')" using deleted(7) bpm_inv_distinct [OF inv] nf by simp
    show "set (free_list s') \<subseteq> insert f (set (free_list s))" using deleted(7) by auto
    show "pin_count \<lparr>page_id = INVALID_PAGE_ID, pin_count = 0, is_dirty = False\<rparr> = 0 \<and>
        (\<forall>x. table h s' x \<noteq> Some f)"
      using deleted(6) bpm_inv_table [OF inv, of _ f] by auto
    show "set (replacer s') \<subseteq> insert f (set (replacer s))" using deleted(8) by auto
    show "(g = f \<and> page_id \<lparr>page_id = INVALID_PAGE_ID, pin_count = 0, is_dirty = False\<rparr> = x) \<or>
        (g \<noteq> f \<and> table h s x = Some g)" if "table h s' x = Some g" for x g
      using that deleted(6) bpm_inv_table [OF inv, of x f] by (auto split: if_splits)
  qed
qed

lemma FlushPage_bpm_inv:
  assumes inv: "bpm_inv h s" and run: "FlushPage h pid s = Inr (r, s')"
  shows "bpm_inv h s'"
  using FlushPage_fields [OF inv run] by (intro bpm_inv_same [OF inv]) simp_all

lemma empty_buckets_nth: "i < 2 \<Longrightarrow> [[], []] ! i = []"
  by (cases i) (auto simp: less_Suc_eq)

lemma bpm_inv_init: "bpm_inv h (BufferPoolManager_init n b)"
proof -
  have "lookup h (ExtendibleHash_init b :: (int, nat) ExtendibleHash) pid = None" for pid
    by (simp add: lookup_def ExtendibleHash_init_def empty_buckets_nth)
  then show ?thesis
    by (simp add: bpm_inv_def BufferPoolManager_init_def hash_inv_init table_def)
qed

lemma map_sum_snd_Inr: "map_sum id snd x = Inr s' \<longleftrightarrow> (\<exists>r. x = Inr (r, s'))"
  by (cases x) auto

lemma map_option_sum_Inr:
  "map_option (map_sum id snd) x = Some (Inr s') \<longleftrightarrow> (\<exists>r. x = Some (Inr (r, s')))"
  by (cases x) (simp_all add: map_sum_snd_Inr)

lemma bpm_step_bpm_inv:
  assumes inv: "bpm_inv h s" and run: "bpm_step h s c = Some (Inr s')"
  shows "bpm_inv h s'"
proof (cases c)
  case (CallFetchPage pid)
  with run have "\<exists>r. FetchPage h pid s = Some (Inr (r, s'))"
    by (simp only: bpm_step.simps map_option_sum_Inr)
  then obtain r where "FetchPage h pid s = Some (Inr (r, s'))" ..
  with inv show ?thesis by (rule FetchPage_bpm_inv)
next
  case (CallNewPage nid)
  with run have "\<exists>r. NewPage h nid s = Some (Inr (r, s'))"
    by (simp only: bpm_step.simps map_option_sum_Inr)
  then obtain r where "NewPage h nid s = Some (Inr (r, s'))" ..
  with inv show ?thesis by (rule NewPage_bpm_inv)
next
  case (CallUnpinPage pid d)
  with run obtain r where "UnpinPage h pid d s = Inr (r, s')"
    by (auto simp: map_sum_snd_Inr)
  with inv show ?thesis by (rule UnpinPage_bpm_inv)
next
  case (CallFlushPage pid)
  with run obtain r where "FlushPage h pid s = Inr (r, s')"
    by (auto simp: map_sum_snd_Inr)
  with inv show ?thesis by (rule FlushPage_bpm_inv)
next
  case (CallDeletePage pid)
  with run obtain r where "DeletePage h pid s = Inr (r, s')"
    by (auto simp: map_sum_snd_Inr)
  with inv show ?thesis by (rule DeletePage_bpm_inv)
qed

lemma bpm_run_Cons:
  "bpm_run h s (c # cs) = Some (Inr s') \<longleftrightarrow>
     (\<exists>s1. bpm_step h s c = Some (Inr s1) \<and> bpm_run h s1 cs = Some (Inr s'))"
  by (cases "bpm_step h s c") (auto split: sum.splits)

lemma bpm_run_bpm_inv:
  "bpm_inv h s \<Longrightarrow> bpm_run h s cs = Some (Inr s') \<Longrightarrow> bpm_inv h s'"
proof (induction cs arbitrary: s)
  case Nil
  then show ?case by simp
next
  case (Cons c cs)
  from Cons.prems(2) obtain s1 where 1: "bpm_step h s c = Some (Inr s1)"
    and 2: "bpm_run h s1 cs = Some (Inr s')"
    unfolding bpm_run_Cons by blast
  from bpm_step_bpm_inv [OF Cons.prems(1) 1] 2 show ?case by (rule Cons.IH)
qed

section \<open>Buffer pool manager: the invariant of runs that remove no resident page\<close>

lemma lru_inv_same:
  assumes "lru_inv s" and "pages s' = pages s" and "free_list s' = free_list s"
    and "replacer s' = replacer s"
  shows "lru_inv s'"
  using assms unfolding lru_inv_def by simp

lemma lru_inv_update:
  assumes inv: "lru_inv s"
    and pg: "pages s' = (pages s)[f := p]"
    and f: "f < length (pages s)"
    and p: "0 \<le> pin_count p"
    and d: "distinct (replacer s')"
    and rep: "set (replacer s') \<subseteq> insert f (set (replacer s))"
    and fr: "set (free_list s') \<subseteq> set (free_list s)"
    and fin: "f \<in> set (replacer s') \<Longrightarrow> pin_count p = 0 \<and> f \<notin> set (free_list s')"
    and f0: "pin_count p = 0 \<Longrightarrow> f \<in> set (free_list s') \<or> f \<in> set (replacer s')"
    and keep_free: "\<And>g. g \<noteq> f \<Longrightarrow> g \<in> set (free_list s) \<Longrightarrow> g \<in> set (free_list s')"
    and keep_rep: "\<And>g. g \<noteq> f \<Longrightarrow> g \<in> set (replacer s) \<Longrightarrow> g \<in> set (replacer s')"
  shows "lru_inv s'"
proof -
  have 2: "pin_count (pages s' ! g) = 0 \<and> g \<notin> set (free_list s')" if g: "g \<in> set (replacer s')" for g
  proof (cases "g = f")
    case True
    with fin g f pg show ?thesis by simp
  next
    case False
    with g rep have "g \<in> set (replacer s)" by auto
    with inv have "pin_count (pages s ! g) = 0" and "g \<notin> set (free_list s)"
      by (simp_all add: lru_inv_def)
    with False pg fr show ?thesis by auto
  qed
  have 3: "0 \<le> pin_count (pages s' ! g) \<and>
      (pin_count (pages s' ! g) = 0 \<longrightarrow> g \<in> set (free_list s') \<or> g \<in> set (replacer s'))"
    if g: "g < length (pages s')" for g
  proof (cases "g = f")
    case True
    with p f0 f pg show ?thesis by simp
  next
    case False
    from g pg have "g < length (pages s)" by simp
    with inv have "0 \<le> pin_count (pages s ! g)"
      and "pin_count (pages s ! g) = 0 \<longrightarrow> g \<in> set (free_list s) \<or> g \<in> set (replacer s)"
      by (simp_all add: lru_inv_def)
    with False pg keep_free [of g] keep_rep [of g] show ?thesis by auto
  qed
  from d 2 3 show ?thesis unfolding lru_inv_def by blast
qed

lemma lru_inv_replacer: "lru_inv s \<Longrightarrow> f \<in> set (replacer s) \<Longrightarrow> pin_count (pages s ! f) = 0 \<and> f \<notin> set (free_list s)"
  by (simp add: lru_inv_def)

lemma lru_inv_distinct: "lru_inv s \<Longrightarrow> distinct (replacer s)"
  by (simp add: lru_inv_def)

lemma lru_inv_pin: "lru_inv s \<Longrightarrow> f < length (pages s) \<Longrightarrow> 0 \<le> pin_count (pages s ! f)"
  by (simp add: lru_inv_def)

lemma distinct_butlast_last: "distinct xs \<Longrightarrow> xs \<noteq> [] \<Longrightarrow> last xs \<notin> set (butlast xs)"
  by (induction xs rule: rev_induct) auto

lemma set_butlast_keep: "g \<in> set xs \<Longrightarrow> g \<noteq> last xs \<Longrightarrow> g \<in> set (butlast xs)"
  by (induction xs rule: rev_induct) auto

lemma take_frame_lru_inv:
  assumes binv: "bpm_inv h s" and inv: "lru_inv s"
    and pg: "pages s' = (pages s)[f := \<lparr>page_id = k, pin_count = 1, is_dirty = False\<rparr>]"
    and src: "(free_list s = f # free_list s' \<and> replacer s' = replacer s) \<or>
       (free_list s = [] \<and> free_list s' = [] \<and> replacer s \<noteq> [] \<and> f = last (replacer s) \<and>
        replacer s' = butlast (replacer s))"
  shows "lru_inv s'"
proof (rule lru_inv_update [OF inv pg])
  from src show "f < length (pages s)"
    using bpm_inv_free [OF binv, of f] bpm_inv_replacer [OF binv, of f] by auto
  show "0 \<le> pin_count \<lparr>page_id = k, pin_count = 1, is_dirty = False\<rparr>" by simp
  from src show "distinct (replacer s')"
    using lru_inv_distinct [OF inv] by (auto simp: distinct_butlast)
  from src show "set (replacer s') \<subseteq> insert f (set (replacer s))"
    using set_butlast_subset [of "replacer s"] by auto
  from src show "set (free_list s') \<subseteq> set (free_list s)" by auto
  show "pin_count \<lparr>page_id = k, pin_count = 1, is_dirty = False\<rparr> = 0 \<and> f \<notin> set (free_list s')"
    if "f \<in> set (replacer s')"
    using src that lru_inv_replacer [OF inv, of f] distinct_butlast_last [OF lru_inv_distinct [OF inv]]
    by auto
  show "f \<in> set (free_list s') \<or> f \<in> set (replacer s')"
    if "pin_count \<lparr>page_id = k, pin_count = 1, is_dirty = False\<rparr> = 0"
    using that by simp
  show "g \<in> set (free_list s')" if "g \<noteq> f" "g \<in> set (free_list s)" for g
    using src that by auto
  show "g \<in> set (replacer s')" if "g \<noteq> f" "g \<in> set (replacer s)" for g
    using src that set_butlast_keep [of g "replacer s"] by auto
qed

lemma FetchPage_lru_inv:
  assumes binv: "bpm_inv h s" and inv: "lru_inv s" and run: "FetchPage h pid s = Some (Inr (r, s'))"
  shows "lru_inv s'"
  using binv run
proof (cases rule: FetchPage_cases)
  case invalid
  with inv show ?thesis by simp
next
  case (hit f)
  note T = bpm_inv_table [OF binv hit(2)]
  show ?thesis
  proof (rule lru_inv_update [OF inv hit(4)])
    show "f < length (pages s)" using T by simp
    show "0 \<le> pin_count ((pages s ! f)\<lparr>pin_count := pin_count (pages s ! f) + 1\<rparr>)"
      using lru_inv_pin [OF inv, of f] T by simp
    show "distinct (replacer s')"
      using hit(7) lru_inv_distinct [OF inv] by (simp add: distinct_erase_first)
    show "set (replacer s') \<subseteq> insert f (set (replacer s))"
      using hit(7) set_erase_first_subset [of f "replacer s"] by auto
    show "set (free_list s') \<subseteq> set (free_list s)" using hit(6) by simp
    show "pin_count ((pages s ! f)\<lparr>pin_count := pin_count (pages s ! f) + 1\<rparr>) = 0 \<and>
        f \<notin> set (free_list s')" if "f \<in> set (replacer s')"
      using that hit(7) lru_inv_distinct [OF inv] by (simp add: set_erase_first)
    show "f \<in> set (free_list s') \<or> f \<in> set (replacer s')"
      if "pin_count ((pages s ! f)\<lparr>pin_count := pin_count (pages s ! f) + 1\<rparr>) = 0"
      using that lru_inv_pin [OF inv, of f] T by simp
    show "g \<in> set (free_list s')" if "g \<noteq> f" "g \<in> set (free_list s)" for g
      using that hit(6) by simp
    show "g \<in> set (replacer s')" if "g \<noteq> f" "g \<in> set (replacer s)" for g
      using that hit(7) lru_inv_distinct [OF inv] by (simp add: set_erase_first)
  qed
next
  case (free f rest)
  show ?thesis
    by (rule take_frame_lru_inv [OF binv inv free(5)]) (simp add: free)
next
  case none
  with inv show ?thesis by simp
next
  case pinned
  with lru_inv_replacer [OF inv, of "last (replacer s)"] show ?thesis by simp
next
  case (victim f)
  show ?thesis
    by (rule take_frame_lru_inv [OF binv inv victim(8)]) (simp add: victim)
qed

lemma NewPage_lru_inv:
  assumes binv: "bpm_inv h s" and inv: "lru_inv s" and run: "NewPage h nid s = Some (Inr (r, s'))"
  shows "lru_inv s'"
  using binv run
proof (cases rule: NewPage_cases)
  case none
  with inv show ?thesis by simp
next
  case (free f rest)
  show ?thesis
    by (rule take_frame_lru_inv [OF binv inv free(3)]) (simp add: free)
next
  case (victim f)
  show ?thesis
    by (rule take_frame_lru_inv [OF binv inv victim(5)]) (simp add: victim)
qed

lemma UnpinPage_lru_inv:
  assumes binv: "bpm_inv h s" and inv: "lru_inv s" and run: "UnpinPage h pid d s = Inr (r, s')"
  shows "lru_inv s'"
  using binv run
proof (cases rule: UnpinPage_cases)
  case absent
  with inv show ?thesis by simp
next
  case (unpinned f)
  with inv show ?thesis by simp
next
  case (ok f)
  note T = bpm_inv_table [OF binv ok(1)]
  have nf: "f \<notin> set (free_list s)" using bpm_inv_free_table [OF binv, of f pid] ok(1) by auto
  have nr: "f \<notin> set (replacer s)" using lru_inv_replacer [OF inv, of f] ok(2) by auto
  let ?p = "(pages s ! f)\<lparr>pin_count := pin_count (pages s ! f) - 1, is_dirty := d\<rparr>"
  show ?thesis
  proof (rule lru_inv_update [OF inv ok(4)])
    show "f < length (pages s)" using T by simp
    show "0 \<le> pin_count ?p" using ok(2) by simp
    show "distinct (replacer s')"
      using ok(7) lru_inv_distinct [OF inv] nr
      by (simp add: LRU_Insert_def erase_first_notin)
    show "set (replacer s') \<subseteq> insert f (set (replacer s))"
      using ok(7) nr by (auto simp: LRU_Insert_def erase_first_notin)
    show "set (free_list s') \<subseteq> set (free_list s)" using ok(6) by simp
    show "pin_count ?p = 0 \<and> f \<notin> set (free_list s')" if "f \<in> set (replacer s')"
      using that ok(6,7) nf nr ok(2) by (auto split: if_splits)
    show "f \<in> set (free_list s') \<or> f \<in> set (replacer s')" if "pin_count ?p = 0"
      using that ok(7) by (simp add: LRU_Insert_def)
    show "g \<in> set (free_list s')" if "g \<noteq> f" "g \<in> set (free_list s)" for g
      using that ok(6) by simp
    show "g \<in> set (replacer s')" if "g \<noteq> f" "g \<in> set (replacer s)" for g
      using that ok(7) nr by (simp add: LRU_Insert_def erase_first_notin)
  qed
qed

lemma FlushPage_lru_inv:
  assumes binv: "bpm_inv h s" and inv: "lru_inv s" and run: "FlushPage h pid s = Inr (r, s')"
  shows "lru_inv s'"
  using FlushPage_fields [OF binv run] by (intro lru_inv_same [OF inv]) simp_all

lemma lru_inv_init: "lru_inv (BufferPoolManager_init n b)"
  by (simp add: lru_inv_def BufferPoolManager_init_def)

lemma bpm_step_lru_inv:
  assumes binv: "bpm_inv h s" and inv: "lru_inv s" and nd: "\<not> removes_page h s c"
    and run: "bpm_step h s c = Some (Inr s')"
  shows "lru_inv s'"
proof (cases c)
  case (CallFetchPage pid)
  with run have "\<exists>r. FetchPage h pid s = Some (Inr (r, s'))"
    by (simp only: bpm_step.simps map_option_sum_Inr)
  then obtain r where "FetchPage h pid s = Some (Inr (r, s'))" ..
  with binv inv show ?thesis by (rule FetchPage_lru_inv)
next
  case (CallNewPage nid)
  with run have "\<exists>r. NewPage h nid s = Some (Inr (r, s'))"
    by (simp only: bpm_step.simps map_option_sum_Inr)
  then obtain r where "NewPage h nid s = Some (Inr (r, s'))" ..
  with binv inv show ?thesis by (rule NewPage_lru_inv)
next
  case (CallUnpinPage pid d)
  with run obtain r where "UnpinPage h pid d s = Inr (r, s')"
    by (auto simp: map_sum_snd_Inr)
  with binv inv show ?thesis by (rule UnpinPage_lru_inv)
next
  case (CallFlushPage pid)
  with run obtain r where "FlushPage h pid s = Inr (r, s')"
    by (auto simp: map_sum_snd_Inr)
  with binv inv show ?thesis by (rule FlushPage_lru_inv)
next
  case (CallDeletePage pid)
  with run obtain r where d: "DeletePage h pid s = Inr (r, s')"
    by (auto simp: map_sum_snd_Inr)
  from binv d show ?thesis
  proof (cases rule: DeletePage_cases)
    case absent
    show ?thesis by (rule lru_inv_same [OF inv absent(3,5,6)])
  next
    case (pinned f)
    with inv show ?thesis by simp
  next
    case (deleted f)
    with nd CallDeletePage bpm_inv_Find [OF binv, of pid] have False by simp
    then show ?thesis ..
  qed
qed

lemma bpm_run_lru_inv:
  "bpm_inv h s \<Longrightarrow> lru_inv s \<Longrightarrow> \<not> removes_resident h s cs \<Longrightarrow>
     bpm_run h s cs = Some (Inr s') \<Longrightarrow> lru_inv s'"
proof (induction cs arbitrary: s)
  case Nil
  then show ?case by simp
next
  case (Cons c cs)
  from Cons.prems(4) obtain s1 where 1: "bpm_step h s c = Some (Inr s1)"
    and 2: "bpm_run h s1 cs = Some (Inr s')"
    unfolding bpm_run_Cons by blast
  from Cons.prems(3) 1 have nd: "\<not> removes_page h s c" and nds: "\<not> removes_resident h s1 cs"
    by simp_all
  from bpm_step_bpm_inv [OF Cons.prems(1) 1] bpm_step_lru_inv [OF Cons.prems(1,2) nd 1] nds 2
  show ?case by (rule Cons.IH)
qed

section \<open>Buffer pool manager: properties\<close>

lemmas bpm_eval = FetchPage_def FetchPage_load_def UnpinPage_def FlushPage_def DeletePage_def
  NewPage_def NewPage_frame_def BufferPoolManager_init_def INVALID_PAGE_ID_def std_hash_def
  Victim_def victim_scan_def Erase_def LRU_Insert_def

lemma reached_inv:
  assumes "bpm_run h (BufferPoolManager_init n b) cs = Some (Inr s)"
  shows "bpm_inv h s"
    and "\<not> removes_resident h (BufferPoolManager_init n b) cs \<Longrightarrow> lru_inv s"
proof -
  show "bpm_inv h s" using bpm_inv_init assms by (rule bpm_run_bpm_inv)
  show "lru_inv s" if "\<not> removes_resident h (BufferPoolManager_init n b) cs"
    using bpm_inv_init lru_inv_init that assms by (rule bpm_run_lru_inv)
qed

text \<open>
  C1, as the code has it. In every state reached from the constructor by returning calls,
  a frame on the free list is bound to no page id in the page table and is unpinned. In
  every such state reached without a \<open>DeletePage\<close> that removed a resident page, a frame
  with a positive pin count is not in the replacer, and no frame is both on the free list
  and in the replacer.
\<close>

theorem pool_frames_placement:
  assumes "bpm_run h (BufferPoolManager_init n b) cs = Some (Inr s)"
  shows "(\<forall>f. f \<in> set (free_list s) \<longrightarrow> \<not> resident h s f \<and> pin_count (pages s ! f) = 0) \<and>
     (\<not> removes_resident h (BufferPoolManager_init n b) cs \<longrightarrow>
        (\<forall>f. pin_count (pages s ! f) > 0 \<longrightarrow> f \<notin> set (replacer s)) \<and>
        set (free_list s) \<inter> set (replacer s) = {})"
proof -
  note binv = reached_inv(1) [OF assms]
  have 1: "\<not> resident h s f \<and> pin_count (pages s ! f) = 0" if "f \<in> set (free_list s)" for f
    using bpm_inv_free_table [OF binv that] bpm_inv_free_pin [OF binv that]
    by (simp add: resident_def bpm_inv_Find [OF binv])
  have 2: "(\<forall>f. pin_count (pages s ! f) > 0 \<longrightarrow> f \<notin> set (replacer s)) \<and>
        set (free_list s) \<inter> set (replacer s) = {}"
    if "\<not> removes_resident h (BufferPoolManager_init n b) cs"
    using lru_inv_replacer [OF reached_inv(2) [OF assms that]] by auto
  from 1 2 show ?thesis by blast
qed

lemma two_frames: "[0 ..< 2] = [0, 1]" "replicate 2 x = [x, x]"
  by (simp_all add: numeral_2_eq_2)

theorem pool_frames_placement_witness:
  "\<exists>s. bpm_run std_hash (BufferPoolManager_init 2 2) [CallNewPage 5, CallDeletePage 5] =
          Some (Inr s) \<and>
       \<not> removes_resident std_hash (BufferPoolManager_init 2 2) [CallNewPage 5, CallDeletePage 5] \<and>
       free_list s = [1] \<and> replacer s = [] \<and> map pin_count (pages s) = [1, 0] \<and>
       \<not> resident std_hash s 1 \<and> 0 \<notin> set (replacer s) \<and>
       set (free_list s) \<inter> set (replacer s) = {}"
proof -
  let ?cs = "[CallNewPage 5, CallDeletePage 5]"
  have "\<exists>s. bpm_run std_hash (BufferPoolManager_init 2 2) ?cs = Some (Inr s) \<and>
      free_list s = [1] \<and> replacer s = [] \<and> map pin_count (pages s) = [1, 0]"
    by (simp add: bpm_eval hash_eval two_frames)
  then obtain s where r: "bpm_run std_hash (BufferPoolManager_init 2 2) ?cs = Some (Inr s)"
    and fl: "free_list s = [1]" and rp: "replacer s = []"
    and pn: "map pin_count (pages s) = [1, 0]"
    by (elim exE conjE)
  have nd: "\<not> removes_resident std_hash (BufferPoolManager_init 2 2) ?cs"
    by (simp add: bpm_eval hash_eval two_frames)
  have "1 \<in> set (free_list s)" using fl by simp
  with pool_frames_placement [OF r] nd
  have "\<not> resident std_hash s 1" and "set (free_list s) \<inter> set (replacer s) = {}" by blast+
  with r nd fl rp pn show ?thesis by simp
qed

text \<open>
  C1 as stated fails in three ways. After \<open>NewPage\<close> and \<open>UnpinPage\<close> the frame is
  bound in the page table and in the replacer at once, which is how an unpinned resident
  page is meant to be kept. \<open>DeletePage\<close> then puts the frame on the free list and
  leaves it in the replacer, and the next \<open>NewPage\<close> pins it while it is still there.
  Each line gives the binding of the page, the replacer, the free list and the pin counts.
\<close>

theorem frame_in_two_places:
  "map_option (map_sum id (\<lambda>s. (Find std_hash 5 (page_table s), replacer s, free_list s,
        map pin_count (pages s))))
     (bpm_run std_hash (BufferPoolManager_init 1 2) [CallNewPage 5, CallUnpinPage 5 False]) =
   Some (Inr (Inr (Some 0), [0], [], [0])) \<and>
   map_option (map_sum id (\<lambda>s. (Find std_hash 5 (page_table s), replacer s, free_list s,
        map pin_count (pages s))))
     (bpm_run std_hash (BufferPoolManager_init 1 2)
        [CallNewPage 5, CallUnpinPage 5 False, CallDeletePage 5]) =
   Some (Inr (Inr None, [0], [0], [0])) \<and>
   map_option (map_sum id (\<lambda>s. (Find std_hash 6 (page_table s), replacer s, free_list s,
        map pin_count (pages s))))
     (bpm_run std_hash (BufferPoolManager_init 1 2)
        [CallNewPage 5, CallUnpinPage 5 False, CallDeletePage 5, CallNewPage 6]) =
   Some (Inr (Inr (Some 0), [0], [], [1]))"
  by (simp add: bpm_eval hash_eval)

text \<open>
  C6, as the code has it. \<open>UnpinPage\<close> on a resident page with a positive pin count
  returns true, decrements the pin count and sets the dirty flag to the flag passed in.
\<close>

theorem UnpinPage_sets_dirty:
  assumes "bpm_run h (BufferPoolManager_init n b) cs = Some (Inr s)"
    and "Find h pid (page_table s) = Inr (Some f)" and "pin_count (pages s ! f) > 0"
  shows "\<exists>s'. UnpinPage h pid d s = Inr (True, s') \<and> is_dirty (pages s' ! f) = d \<and>
     pin_count (pages s' ! f) = pin_count (pages s ! f) - 1"
proof -
  note binv = reached_inv(1) [OF assms(1)]
  from assms(2) have t: "table h s pid = Some f" by (simp add: bpm_inv_Find [OF binv])
  from bpm_inv_table [OF binv t] have "f < length (pages s)" by simp
  with assms(2,3) show ?thesis by (simp add: UnpinPage_def Let_def)
qed

theorem UnpinPage_sets_dirty_witness:
  "\<exists>s. bpm_run std_hash (BufferPoolManager_init 1 2) [CallNewPage 5] = Some (Inr s) \<and>
       Find std_hash 5 (page_table s) = Inr (Some 0) \<and> pin_count (pages s ! 0) > 0 \<and>
       (\<exists>s'. UnpinPage std_hash 5 True s = Inr (True, s') \<and> is_dirty (pages s' ! 0) = True \<and>
          pin_count (pages s' ! 0) = pin_count (pages s ! 0) - 1)"
proof -
  have "\<exists>s. bpm_run std_hash (BufferPoolManager_init 1 2) [CallNewPage 5] = Some (Inr s) \<and>
       Find std_hash 5 (page_table s) = Inr (Some 0) \<and> pin_count (pages s ! 0) > 0"
    by (simp add: bpm_eval hash_eval)
  then obtain s where r: "bpm_run std_hash (BufferPoolManager_init 1 2) [CallNewPage 5] = Some (Inr s)"
    and f: "Find std_hash 5 (page_table s) = Inr (Some 0)" and p: "pin_count (pages s ! 0) > 0"
    by (elim exE conjE)
  from UnpinPage_sets_dirty [OF r f p, of True] r f p show ?thesis by blast
qed

text \<open>
  C6 as stated fails: page 5 is pinned twice and unpinned once with the dirty flag set, so
  its frame is dirty with pin count 1; \<open>UnpinPage(5, false)\<close> then leaves the frame
  clean, where the logical OR would keep it dirty.
\<close>

theorem UnpinPage_clears_dirty:
  "map_option (map_sum id (\<lambda>s. (map is_dirty (pages s), map pin_count (pages s),
        map_sum id (\<lambda>(r, s'). (r, map is_dirty (pages s'))) (UnpinPage std_hash 5 False s))))
     (bpm_run std_hash (BufferPoolManager_init 1 2)
        [CallNewPage 5, CallFetchPage 5, CallUnpinPage 5 True]) =
   Some (Inr ([True], [1], Inr (True, [False])))"
  by (simp add: bpm_eval hash_eval)











end
